theory Spec2Isabelle
  imports Complex_Main
begin

section \<open>The event model of midilint\<close>

text \<open>
  The transforms of \<^verbatim>\<open>src/midilint/midilint.py\<close> work on a \<^verbatim>\<open>mido.MidiFile\<close>: an object
  with a field \<^verbatim>\<open>ticks_per_beat\<close> and a list \<^verbatim>\<open>tracks\<close>; a track is a list of messages; the
  transforms read a message's \<^verbatim>\<open>type\<close> (a string) and read and assign its \<^verbatim>\<open>time\<close>,
  \<^verbatim>\<open>note\<close> and \<^verbatim>\<open>velocity\<close>. Python integers are unbounded, so every number is an \<open>int\<close>.
  The fields \<open>msg_note\<close> and \<open>msg_velocity\<close> of a message whose type is neither
  \<^verbatim>\<open>note_on\<close> nor \<^verbatim>\<open>note_off\<close> are never read or written by the transforms.

  The transforms mutate the messages in place and return the file they were given. A
  transform is modelled as a function that returns the exception raised, if any, together
  with the state of the file when the call ends: \<open>(None, s')\<close> is a normal return of the
  mutated file \<open>s'\<close>, and \<open>(Some e, s')\<close> is the exception \<open>e\<close> leaving the file in state
  \<open>s'\<close>. The messages of a file are distinct objects, as \<^verbatim>\<open>mido\<close> loads them, so an
  assignment to a field of one message changes one element of one track.
\<close>

record message =
  msg_type :: string
  msg_time :: int
  msg_note :: int
  msg_velocity :: int

type_synonym track = "message list"

record midi_file =
  ticks_per_beat :: int
  tracks :: "track list"

datatype error = ValueError | ZeroDivisionError | OverflowError

definition is_note_message :: "message \<Rightarrow> bool" where
  \<comment> \<open>\<^verbatim>\<open>message.type in ("note_on", "note_off")\<close>\<close>
  "is_note_message m \<longleftrightarrow> msg_type m \<in> {''note_on'', ''note_off''}"

section \<open>Python built-ins used by the transforms\<close>

text \<open>\<^verbatim>\<open>bin(n)\<close>: the binary digits of \<open>|n|\<close> after \<^verbatim>\<open>0b\<close>, with a leading minus sign for a
  negative \<open>n\<close>; \<^verbatim>\<open>s.count('1')\<close> counts the occurrences of the character.\<close>

fun bin_digits :: "nat \<Rightarrow> string" where
  "bin_digits n =
     (if n < 2 then [if n = 0 then CHR ''0'' else CHR ''1'']
      else bin_digits (n div 2) @ [if even n then CHR ''0'' else CHR ''1''])"

declare bin_digits.simps [simp del]

definition py_bin :: "int \<Rightarrow> string" where
  "py_bin n = (if n < 0 then ''-'' else []) @ ''0b'' @ bin_digits (nat \<bar>n\<bar>)"

definition str_count :: "string \<Rightarrow> char \<Rightarrow> int" where
  "str_count s c = int (count_list s c)"

text \<open>Floor division and modulo of Python integers agree with \<open>div\<close> and \<open>mod\<close> on \<open>int\<close>
  for every sign of the operands, except that a zero divisor raises.\<close>

definition py_floordiv :: "int \<Rightarrow> int \<Rightarrow> error + int" where
  "py_floordiv a b = (if b = 0 then Inl ZeroDivisionError else Inr (a div b))"

definition py_mod :: "int \<Rightarrow> int \<Rightarrow> error + int" where
  "py_mod a b = (if b = 0 then Inl ZeroDivisionError else Inr (a mod b))"

text \<open>\<^verbatim>\<open>round(x)\<close> with one argument returns the nearest integer, a tie going to the even
  neighbour.\<close>

definition py_round :: "rat \<Rightarrow> int" where
  "py_round x =
     (let f = \<lfloor>x\<rfloor>; d = x - of_int f
      in if d < 1 / 2 then f
         else if 1 / 2 < d then f + 1
         else if even f then f else f + 1)"

text \<open>A Python \<^verbatim>\<open>float\<close> is an IEEE 754 double. Every finite double is a rational number,
  and the model takes a float for the rational it denotes. True division \<^verbatim>\<open>a / b\<close> of two
  integers raises \<^verbatim>\<open>ZeroDivisionError\<close> for a zero divisor, and otherwise gives the double
  nearest to the exact quotient, a tie going to the even significand; it raises
  \<^verbatim>\<open>OverflowError\<close> when that double would be \<open>2^1024\<close> or more in absolute value, and a
  quotient too small for a double underflows to zero.

  \<open>bit_length n\<close> is \<^verbatim>\<open>n.bit_length()\<close> of a non-negative integer. For positive \<open>n\<close> and
  \<open>d\<close>, \<open>floor_log2 n d\<close> is the exponent \<open>e\<close> with \<open>2^e \<le> n / d < 2^(e + 1)\<close>: it is
  \<open>bit_length n - bit_length d\<close> or one less. Doubles with the exponent \<open>e\<close> are the
  multiples of \<open>2^(e - 52)\<close>, and no double is finer than a multiple of \<open>2^(-1074)\<close>.\<close>

function bit_length :: "int \<Rightarrow> nat" where
  "bit_length n = (if n \<le> 0 then 0 else Suc (bit_length (n div 2)))"
  by pat_completeness auto
termination
  by (relation "measure nat") auto

declare bit_length.simps [simp del]

definition floor_log2 :: "int \<Rightarrow> int \<Rightarrow> int" where
  "floor_log2 n d =
     (if d * 2 ^ bit_length n \<le> n * 2 ^ bit_length d
      then int (bit_length n) - int (bit_length d)
      else int (bit_length n) - int (bit_length d) - 1)"

definition pow2 :: "int \<Rightarrow> rat" where
  "pow2 q = (if 0 \<le> q then 2 ^ nat q else 1 / 2 ^ nat (- q))"

definition nearest_double :: "int \<Rightarrow> int \<Rightarrow> rat" where
  "nearest_double a b =
     (if a = 0 then 0
      else
        (let e = floor_log2 \<bar>a\<bar> \<bar>b\<bar>;
             ulp = pow2 (max (e - 52) (- 1074))
         in ulp * of_int (py_round (of_int a / of_int b / ulp))))"

definition double_overflow :: rat where
  "double_overflow = 2 ^ 1024"

definition py_truediv :: "int \<Rightarrow> int \<Rightarrow> error + rat" where
  "py_truediv a b =
     (if b = 0 then Inl ZeroDivisionError
      else
        (let x = nearest_double a b
         in if double_overflow \<le> \<bar>x\<bar> then Inl OverflowError else Inr x))"

text \<open>\<^verbatim>\<open>min(xs, key=k)\<close> raises \<^verbatim>\<open>ValueError\<close> on an empty sequence; otherwise it keeps the
  first item and replaces it only by a later item whose key is strictly smaller.\<close>

definition py_min_key :: "('a \<Rightarrow> int) \<Rightarrow> 'a list \<Rightarrow> error + 'a" where
  "py_min_key k xs =
     (case xs of
        [] \<Rightarrow> Inl ValueError
      | x # rest \<Rightarrow> Inr (foldl (\<lambda>best y. if k y < k best then y else best) x rest))"

section \<open>normalize\<close>

definition normalize_message :: "int \<Rightarrow> message \<Rightarrow> message" where
  "normalize_message velocity m =
     (if msg_type m \<in> {''note_on'', ''note_off''} then m\<lparr>msg_velocity := velocity\<rparr> else m)"

definition normalize :: "midi_file \<Rightarrow> int \<Rightarrow> error option \<times> midi_file" where
  "normalize source velocity =
     (None, source\<lparr>tracks := map (map (normalize_message velocity)) (tracks source)\<rparr>)"

section \<open>align\<close>

text \<open>The body of the inner loop for one message: the carried \<open>shift\<close> goes in, and the
  new \<open>shift\<close> and the message as mutated come out. The condition of the source,
  \<^verbatim>\<open>message.time + shift % tick != 0\<close>, parses as \<^verbatim>\<open>message.time + (shift % tick) != 0\<close>.
  Every exception of the body is raised before the message is assigned to.\<close>

definition align_message :: "int \<Rightarrow> int \<Rightarrow> message \<Rightarrow> error + (int \<times> message)" where
  "align_message tick shift m =
     (if msg_type m \<notin> {''note_on'', ''note_off''} then Inr (shift, m)
      else
        case py_mod shift tick of
          Inl e \<Rightarrow> Inl e
        | Inr r \<Rightarrow>
            if msg_time m + r \<noteq> 0 then
              (let original = msg_time m + shift in
               case py_truediv (msg_time m + shift) tick of
                 Inl e \<Rightarrow> Inl e
               | Inr q \<Rightarrow>
                   (let m' = m\<lparr>msg_time := tick * py_round q\<rparr>
                    in Inr (original - msg_time m', m')))
            else Inr (shift, m))"

text \<open>The inner loop over the messages of one track. An exception leaves the messages
  already visited as mutated and the rest as they were.\<close>

fun align_messages :: "int \<Rightarrow> int \<Rightarrow> track \<Rightarrow> error option \<times> int \<times> track" where
  "align_messages tick shift [] = (None, shift, [])"
| "align_messages tick shift (m # ms) =
     (case align_message tick shift m of
        Inl e \<Rightarrow> (Some e, shift, m # ms)
      | Inr (shift', m') \<Rightarrow>
          (case align_messages tick shift' ms of
             (e, shift'', ms') \<Rightarrow> (e, shift'', m' # ms')))"

definition align_track :: "int \<Rightarrow> track \<Rightarrow> error option \<times> track" where
  \<comment> \<open>\<^verbatim>\<open>shift = 0\<close>, then the inner loop\<close>
  "align_track tick t = (case align_messages tick 0 t of (e, shift, t') \<Rightarrow> (e, t'))"

fun align_tracks :: "int \<Rightarrow> track list \<Rightarrow> error option \<times> track list" where
  "align_tracks tick [] = (None, [])"
| "align_tracks tick (t # ts) =
     (case align_track tick t of
        (Some e, t') \<Rightarrow> (Some e, t' # ts)
      | (None, t') \<Rightarrow>
          (case align_tracks tick ts of (e, ts') \<Rightarrow> (e, t' # ts')))"

definition align :: "midi_file \<Rightarrow> int \<Rightarrow> error option \<times> midi_file" where
  "align source precision =
     (if str_count (py_bin (ticks_per_beat source)) CHR ''1'' \<noteq> 1 then (Some ValueError, source)
      else if str_count (py_bin precision) CHR ''1'' \<noteq> 1 then (Some ValueError, source)
      else
        case py_floordiv (ticks_per_beat source) precision of
          Inl e \<Rightarrow> (Some e, source)
        | Inr tick \<Rightarrow>
            (case align_tracks tick (tracks source) of
               (e, ts') \<Rightarrow> (e, source\<lparr>tracks := ts'\<rparr>)))"

section \<open>Pitch correction\<close>

text \<open>The two \<^verbatim>\<open>while\<close> loops of \<^verbatim>\<open>shift_up\<close> and \<^verbatim>\<open>shift_down\<close> on the pitch of one
  message.\<close>

function raise_note :: "int list \<Rightarrow> int \<Rightarrow> int" where
  "raise_note notes n = (if n < 127 \<and> n \<notin> set notes then raise_note notes (n + 1) else n)"
  by pat_completeness auto
termination
  by (relation "measure (\<lambda>(notes, n). nat (127 - n))") auto

function lower_note :: "int list \<Rightarrow> int \<Rightarrow> int" where
  "lower_note notes n = (if 0 < n \<and> n \<notin> set notes then lower_note notes (n - 1) else n)"
  by pat_completeness auto
termination
  by (relation "measure (\<lambda>(notes, n). nat n)") auto

declare raise_note.simps [simp del] lower_note.simps [simp del]

definition shift_up_message :: "int list \<Rightarrow> message \<Rightarrow> message" where
  "shift_up_message notes m =
     (if msg_type m \<notin> {''note_on'', ''note_off''} then m
      else m\<lparr>msg_note := lower_note notes (raise_note notes (msg_note m))\<rparr>)"

definition shift_down_message :: "int list \<Rightarrow> message \<Rightarrow> message" where
  "shift_down_message notes m =
     (if msg_type m \<notin> {''note_on'', ''note_off''} then m
      else m\<lparr>msg_note := raise_note notes (lower_note notes (msg_note m))\<rparr>)"

definition shift_up :: "track \<Rightarrow> int list \<Rightarrow> error option \<times> track" where
  "shift_up t notes = (None, map (shift_up_message notes) t)"

definition shift_down :: "track \<Rightarrow> int list \<Rightarrow> error option \<times> track" where
  "shift_down t notes = (None, map (shift_down_message notes) t)"

fun shift_nearest :: "track \<Rightarrow> int list \<Rightarrow> error option \<times> track" where
  "shift_nearest [] notes = (None, [])"
| "shift_nearest (m # ms) notes =
     (if msg_type m \<in> {''note_on'', ''note_off''} then
        (case py_min_key (\<lambda>x. \<bar>x - msg_note m\<bar>) notes of
           Inl e \<Rightarrow> (Some e, m # ms)
         | Inr n \<Rightarrow>
             (case shift_nearest ms notes of
                (e, ms') \<Rightarrow> (e, m\<lparr>msg_note := n\<rparr> # ms')))
      else
        (case shift_nearest ms notes of (e, ms') \<Rightarrow> (e, m # ms')))"

text \<open>\<^verbatim>\<open>correct_pitch\<close> collects the pitches of the key from the library
  \<^verbatim>\<open>midi_abstraction\<close>, which is not part of the repository: the key is the list of note
  names that \<^verbatim>\<open>key.list_notes()\<close> returns, and \<open>midi_notes\<close> stands for
  \<^verbatim>\<open>midi_abstraction.notes\<close>. The strategy is the function the caller passes.\<close>

type_synonym strategy = "track \<Rightarrow> int list \<Rightarrow> error option \<times> track"

definition collect_notes :: "(string \<Rightarrow> int list) \<Rightarrow> string list \<Rightarrow> int list" where
  "collect_notes midi_notes key = foldl (\<lambda>notes n. notes @ midi_notes n) [] key"

fun apply_strategy :: "strategy \<Rightarrow> int list \<Rightarrow> track list \<Rightarrow> error option \<times> track list" where
  "apply_strategy strategy notes [] = (None, [])"
| "apply_strategy strategy notes (t # ts) =
     (case strategy t notes of
        (Some e, t') \<Rightarrow> (Some e, t' # ts)
      | (None, t') \<Rightarrow>
          (case apply_strategy strategy notes ts of (e, ts') \<Rightarrow> (e, t' # ts')))"

definition correct_pitch ::
  "(string \<Rightarrow> int list) \<Rightarrow> midi_file \<Rightarrow> string list \<Rightarrow> strategy \<Rightarrow> error option \<times> midi_file" where
  "correct_pitch midi_notes source key strategy =
     (let notes = collect_notes midi_notes key in
      case apply_strategy strategy notes (tracks source) of
        (e, ts') \<Rightarrow> (e, source\<lparr>tracks := ts'\<rparr>))"

section \<open>Notions of the specification\<close>

definition is_pow2 :: "int \<Rightarrow> bool" where
  "is_pow2 n \<longleftrightarrow> (\<exists>k::nat. n = 2 ^ k)"

text \<open>The grid aligner as the specification words it, for one track: every note-start or
  note-end event gets the delta-time \<open>tick * round(original / tick)\<close>, where \<open>original\<close>
  is its delta-time plus the carried shift, and the signed rounding error
  \<open>original - quantized\<close> is carried to the next such event; any other event is left alone
  and does not touch the carry.\<close>

fun quantize_track :: "int \<Rightarrow> int \<Rightarrow> track \<Rightarrow> track" where
  "quantize_track tick shift [] = []"
| "quantize_track tick shift (m # ms) =
     (if is_note_message m then
        (let original = msg_time m + shift;
             quantized = tick * py_round (of_int original / of_int tick)
         in m\<lparr>msg_time := quantized\<rparr> # quantize_track tick (original - quantized) ms)
      else m # quantize_track tick shift ms)"

text \<open>The sum of the delta-times of the note-start and note-end events of a track.\<close>

definition note_time_sum :: "track \<Rightarrow> int" where
  "note_time_sum t = sum_list (map msg_time (filter is_note_message t))"

text \<open>What a transform may change in a message: \<open>keeps_pitch_time\<close> lets only the velocity
  differ, \<open>keeps_velocity_time\<close> only the pitch, and \<open>keeps_all_but_note_time\<close> only the
  delta-time, and that only for a note-start or note-end event.\<close>

definition keeps_pitch_time :: "message \<Rightarrow> message \<Rightarrow> bool" where
  "keeps_pitch_time m m' \<longleftrightarrow>
     msg_type m' = msg_type m \<and> msg_time m' = msg_time m \<and> msg_note m' = msg_note m"

definition keeps_velocity_time :: "message \<Rightarrow> message \<Rightarrow> bool" where
  "keeps_velocity_time m m' \<longleftrightarrow>
     msg_type m' = msg_type m \<and> msg_time m' = msg_time m \<and> msg_velocity m' = msg_velocity m"

definition keeps_all_but_note_time :: "message \<Rightarrow> message \<Rightarrow> bool" where
  "keeps_all_but_note_time m m' \<longleftrightarrow>
     msg_type m' = msg_type m \<and> msg_note m' = msg_note m \<and> msg_velocity m' = msg_velocity m \<and>
     (is_note_message m \<or> msg_time m' = msg_time m)"

text \<open>The index \<open>i\<close> holds an item of \<open>xs\<close> with the least key, and no earlier item has a
  key as small: the first minimum in iteration order.\<close>

definition first_minimum :: "('a \<Rightarrow> int) \<Rightarrow> 'a list \<Rightarrow> nat \<Rightarrow> bool" where
  "first_minimum k xs i \<longleftrightarrow>
     i < length xs \<and> (\<forall>j<length xs. k (xs ! i) \<le> k (xs ! j)) \<and> (\<forall>j<i. k (xs ! i) < k (xs ! j))"

section \<open>The power-of-two test\<close>

lemma count_bin_digits_rec:
  "\<not> n < 2 \<Longrightarrow> count_list (bin_digits n) CHR ''1'' =
        count_list (bin_digits (n div 2)) CHR ''1'' + (if even n then 0 else 1)"
  by (subst bin_digits.simps) simp

lemma count_bin_digits_base:
  "n < 2 \<Longrightarrow> count_list (bin_digits n) CHR ''1'' = n"
  by (subst bin_digits.simps) auto

lemma count_bin_digits_zero:
  "count_list (bin_digits n) CHR ''1'' = 0 \<longleftrightarrow> n = 0"
proof (induction n rule: bin_digits.induct)
  case (1 n)
  show ?case
  proof (cases "n < 2")
    case True
    then show ?thesis by (simp add: count_bin_digits_base)
  next
    case False
    with 1 have IH: "count_list (bin_digits (n div 2)) CHR ''1'' = 0 \<longleftrightarrow> n div 2 = 0" by simp
    from False have "n div 2 \<noteq> 0" by simp
    with IH False show ?thesis by (simp add: count_bin_digits_rec)
  qed
qed

lemma count_bin_digits_one:
  "count_list (bin_digits n) CHR ''1'' = 1 \<longleftrightarrow> (\<exists>k. n = 2 ^ k)"
proof (induction n rule: bin_digits.induct)
  case (1 n)
  show ?case
  proof (cases "n < 2")
    case True
    have "(\<exists>k. n = 2 ^ k) \<longleftrightarrow> n = 1"
    proof
      assume "\<exists>k. n = 2 ^ k"
      then obtain k where k: "n = 2 ^ k" by blast
      show "n = 1"
      proof (cases k)
        case 0
        with k show ?thesis by simp
      next
        case (Suc j)
        with k have "2 \<le> n" by simp
        with True show ?thesis by simp
      qed
    next
      assume "n = 1"
      then have "n = 2 ^ 0" by simp
      then show "\<exists>k. n = 2 ^ k" by (rule exI)
    qed
    with True show ?thesis by (simp add: count_bin_digits_base)
  next
    case False
    with 1 have IH: "count_list (bin_digits (n div 2)) CHR ''1'' = 1 \<longleftrightarrow> (\<exists>k. n div 2 = 2 ^ k)"
      by simp
    have nz: "count_list (bin_digits (n div 2)) CHR ''1'' \<noteq> 0"
      using False by (simp add: count_bin_digits_zero)
    note unf = count_bin_digits_rec [OF False]
    show ?thesis
    proof
      assume c: "count_list (bin_digits n) CHR ''1'' = 1"
      have ev: "even n"
      proof (rule ccontr)
        assume "odd n"
        with unf c nz show False by simp
      qed
      with unf c have "count_list (bin_digits (n div 2)) CHR ''1'' = 1" by simp
      with IH obtain k where k: "n div 2 = 2 ^ k" by blast
      from ev have "n = 2 * (n div 2)" by simp
      with k have "n = 2 ^ Suc k" by simp
      then show "\<exists>k. n = 2 ^ k" by (rule exI)
    next
      assume "\<exists>k. n = 2 ^ k"
      then obtain k where k: "n = 2 ^ k" by blast
      from k False obtain j where j: "k = Suc j" by (cases k) simp_all
      from k j have ev: "even n" by simp
      from k j have "n div 2 = 2 ^ j" by simp
      then have "\<exists>k. n div 2 = 2 ^ k" by (rule exI)
      with IH have "count_list (bin_digits (n div 2)) CHR ''1'' = 1" by simp
      with unf ev show "count_list (bin_digits n) CHR ''1'' = 1" by simp
    qed
  qed
qed

lemma str_count_py_bin:
  "str_count (py_bin n) CHR ''1'' = 1 \<longleftrightarrow> (\<exists>k. \<bar>n\<bar> = 2 ^ k)"
proof -
  have eq: "(\<exists>k. nat \<bar>n\<bar> = 2 ^ k) \<longleftrightarrow> (\<exists>k. \<bar>n\<bar> = 2 ^ k)"
  proof
    assume "\<exists>k. nat \<bar>n\<bar> = 2 ^ k"
    then obtain k where "nat \<bar>n\<bar> = 2 ^ k" by blast
    then have "int (nat \<bar>n\<bar>) = int (2 ^ k)" by simp
    then have "\<bar>n\<bar> = 2 ^ k" by simp
    then show "\<exists>k. \<bar>n\<bar> = 2 ^ k" by (rule exI)
  next
    assume "\<exists>k. \<bar>n\<bar> = 2 ^ k"
    then obtain k where "\<bar>n\<bar> = 2 ^ k" by blast
    then have "nat \<bar>n\<bar> = 2 ^ k" by (simp add: nat_power_eq)
    then show "\<exists>k. nat \<bar>n\<bar> = 2 ^ k" by (rule exI)
  qed
  have "str_count (py_bin n) CHR ''1'' = int (count_list (bin_digits (nat \<bar>n\<bar>)) CHR ''1'')"
    by (simp add: str_count_def py_bin_def)
  also have "\<dots> = 1 \<longleftrightarrow> count_list (bin_digits (nat \<bar>n\<bar>)) CHR ''1'' = 1"
    by linarith
  finally show ?thesis
    using count_bin_digits_one [of "nat \<bar>n\<bar>"] eq by simp
qed

section \<open>Rounding\<close>

lemma py_round_cases:
  "py_round x = \<lfloor>x\<rfloor> \<or> py_round x = \<lfloor>x\<rfloor> + 1"
  by (simp add: py_round_def Let_def)

lemma py_round_near: "\<bar>of_int (py_round x) - x\<bar> \<le> 1 / 2"
proof -
  define f where "f = \<lfloor>x\<rfloor>"
  define d where "d = x - of_int f"
  have d0: "0 \<le> d" and d1: "d < 1" unfolding d_def f_def by linarith+
  have x: "x = of_int f + d" by (simp add: d_def)
  consider "d < 1 / 2" | "1 / 2 \<le> d" "py_round x = f + 1" | "d = 1 / 2" "py_round x = f"
    unfolding py_round_def Let_def f_def [symmetric] d_def [symmetric]
    by (cases "d < 1 / 2"; cases "1 / 2 < d"; cases "even f") auto
  then show ?thesis
  proof cases
    case 1
    then have "py_round x = f"
      unfolding py_round_def Let_def f_def [symmetric] d_def [symmetric] by simp
    with 1 d0 x show ?thesis by simp
  next
    case 2
    with d1 x show ?thesis by simp
  next
    case 3
    with x show ?thesis by simp
  qed
qed

text \<open>The two properties that make \<open>py_round\<close> rounding to the nearest integer with ties
  to even.\<close>

lemma py_round_tie_even:
  assumes "\<bar>of_int (py_round x) - x\<bar> = 1 / 2"
  shows "even (py_round x)"
proof -
  define f where "f = \<lfloor>x\<rfloor>"
  define d where "d = x - of_int f"
  have d0: "0 \<le> d" and d1: "d < 1" unfolding d_def f_def by linarith+
  have x: "x = of_int f + d" by (simp add: d_def)
  have r: "py_round x = (if d < 1 / 2 then f else if 1 / 2 < d then f + 1
      else if even f then f else f + 1)"
    unfolding py_round_def Let_def f_def [symmetric] d_def [symmetric] ..
  show ?thesis
  proof (cases "d = 1 / 2")
    case True
    with r show ?thesis by simp
  next
    case False
    show ?thesis
    proof (cases "d < 1 / 2")
      case True
      with r have "py_round x = f" by simp
      with assms x d0 True show ?thesis by simp
    next
      case False
      with \<open>d \<noteq> 1 / 2\<close> have "1 / 2 < d" by simp
      with r False have "py_round x = f + 1" by simp
      with assms x d1 \<open>1 / 2 < d\<close> show ?thesis by simp
    qed
  qed
qed

lemma py_round_of_int: "py_round (of_int n) = n"
  by (simp add: py_round_def)

lemma quantize_error:
  fixes a tick :: int
  assumes "0 < tick"
  shows "2 * \<bar>a - tick * py_round (of_int a / of_int tick)\<bar> \<le> tick"
proof -
  define r where "r = py_round (of_int a / of_int tick)"
  have pos: "(0::rat) < of_int tick" using assms by simp
  have "\<bar>of_int r - of_int a / (of_int tick :: rat)\<bar> \<le> 1 / 2"
    unfolding r_def by (rule py_round_near)
  then have "\<bar>of_int r - of_int a / (of_int tick :: rat)\<bar> * of_int tick \<le> 1 / 2 * of_int tick"
    using pos by (simp only: mult_le_cancel_right_pos)
  moreover have "\<bar>of_int r - of_int a / (of_int tick :: rat)\<bar> * of_int tick
      = \<bar>of_int tick * of_int r - of_int a\<bar>"
  proof -
    have "\<bar>of_int r - of_int a / (of_int tick :: rat)\<bar> * of_int tick
        = \<bar>(of_int r - of_int a / (of_int tick :: rat)) * of_int tick\<bar>"
      using pos by (simp add: abs_mult)
    also have "(of_int r - of_int a / (of_int tick :: rat)) * of_int tick
        = of_int tick * of_int r - of_int a"
      using pos by (simp add: field_simps)
    finally show ?thesis .
  qed
  ultimately have "2 * \<bar>(of_int tick :: rat) * of_int r - of_int a\<bar> \<le> of_int tick"
    by simp
  then have "(of_int (2 * \<bar>tick * r - a\<bar>) :: rat) \<le> of_int tick"
    by simp
  then have "2 * \<bar>tick * r - a\<bar> \<le> tick"
    by (simp only: of_int_le_iff)
  then show ?thesis unfolding r_def by (simp add: abs_minus_commute)
qed

lemma quantize_on_grid:
  fixes a tick :: int
  assumes "tick \<noteq> 0" and "tick dvd a"
  shows "tick * py_round (of_int a / of_int tick) = a"
proof -
  from assms(2) obtain k where k: "a = tick * k" by (rule dvdE)
  have "(of_int a / of_int tick :: rat) = of_int k"
    using assms(1) by (simp add: k)
  then show ?thesis by (simp add: py_round_of_int k)
qed

section \<open>The float quotient\<close>

lemma double_overflow_numeral [code]:
  "double_overflow = 179769313486231590772930519078902473361797697894230657273430081157732675805500963132708477322407536021120113879871393357658789768814416622492847430639474124377767893424865485276302219601246094119453082952085005768838150682342462881473913110540827237163350510684586298239947245938479716304835356329624224137216"
  by (simp add: double_overflow_def)

lemma bit_length_pos: "0 < n \<Longrightarrow> bit_length n = Suc (bit_length (n div 2))"
  by (subst bit_length.simps) simp

lemma bit_length_nonpos: "n \<le> 0 \<Longrightarrow> bit_length n = 0"
  by (subst bit_length.simps) simp

lemma bit_length_less: "n < 2 ^ k \<Longrightarrow> bit_length n \<le> k"
proof (induction k arbitrary: n)
  case 0
  then have "n \<le> 0" by simp
  then show ?case by (simp add: bit_length_nonpos)
next
  case (Suc k)
  show ?case
  proof (cases "0 < n")
    case True
    from Suc.prems have "n div 2 < 2 ^ k" by simp
    then have "bit_length (n div 2) \<le> k" by (rule Suc.IH)
    with True show ?thesis by (simp add: bit_length_pos)
  next
    case False
    then show ?thesis by (simp add: bit_length_nonpos)
  qed
qed

lemma bit_length_power: "bit_length (2 ^ k) = Suc k"
proof (induction k)
  case 0
  have "bit_length 1 = Suc (bit_length (1 div 2))" by (rule bit_length_pos) simp
  then show ?case by (simp add: bit_length_nonpos)
next
  case (Suc k)
  have "bit_length (2 ^ Suc k) = Suc (bit_length (2 ^ Suc k div 2))"
    by (rule bit_length_pos) simp
  with Suc show ?case by simp
qed

lemma floor_log2_le: "floor_log2 n d \<le> int (bit_length n) - int (bit_length d)"
  by (simp add: floor_log2_def)

lemma pow2_nonpos: "q \<le> 0 \<Longrightarrow> pow2 q = 1 / 2 ^ nat (- q)"
  by (cases "q = 0") (simp_all add: pow2_def)

text \<open>A quotient by a power of two of at most \<open>2^1074\<close> whose numerator is below \<open>2^53\<close>
  in absolute value is a double, so the division is exact.\<close>

lemma nearest_double_exact:
  assumes "\<bar>a\<bar> < 2 ^ 53" and "k \<le> 1074"
  shows "nearest_double a (2 ^ k) = of_int a / 2 ^ k"
proof (cases "a = 0")
  case True
  then show ?thesis by (simp add: nearest_double_def)
next
  case False
  define e where "e = floor_log2 \<bar>a\<bar> \<bar>2 ^ k\<bar>"
  define q where "q = max (e - 52) (- 1074)"
  have "bit_length \<bar>a\<bar> \<le> 53" using assms(1) by (rule bit_length_less)
  moreover have "bit_length \<bar>2 ^ k :: int\<bar> = Suc k" by (simp add: bit_length_power)
  ultimately have "e \<le> 52 - int k"
    using floor_log2_le [of "\<bar>a\<bar>" "\<bar>2 ^ k\<bar>"] unfolding e_def by linarith
  with assms(2) have q: "q \<le> - int k" unfolding q_def by simp
  define j where "j = nat (- q) - k"
  from q have nq: "nat (- q) = k + j" unfolding j_def by simp
  from q have "q \<le> 0" by simp
  then have ulp: "pow2 q = 1 / 2 ^ (k + j)" by (simp add: pow2_nonpos nq)
  have "of_int a / of_int (2 ^ k) / pow2 q = (of_int (a * 2 ^ j) :: rat)"
    by (simp add: ulp power_add)
  then have r: "py_round (of_int a / of_int (2 ^ k) / pow2 q) = a * 2 ^ j"
    by (simp only: py_round_of_int)
  have "nearest_double a (2 ^ k) =
      pow2 q * of_int (py_round (of_int a / of_int (2 ^ k) / pow2 q))"
    unfolding nearest_double_def Let_def e_def q_def by (simp only: False if_False)
  also have "\<dots> = pow2 q * of_int (a * 2 ^ j)" by (simp only: r)
  also have "\<dots> = of_int a / 2 ^ k" by (simp add: ulp power_add)
  finally show ?thesis .
qed

lemma py_truediv_exact:
  assumes "\<bar>a\<bar> < 2 ^ 53" and "k \<le> 1074"
  shows "py_truediv a (2 ^ k) = Inr (of_int a / of_int (2 ^ k))"
proof -
  have x: "nearest_double a (2 ^ k) = of_int a / 2 ^ k"
    using assms by (rule nearest_double_exact)
  have "\<bar>(of_int a :: rat) / 2 ^ k\<bar> = \<bar>of_int a\<bar> / 2 ^ k" by (simp add: abs_divide)
  also have "\<dots> \<le> \<bar>of_int a\<bar> / 1" by (rule divide_left_mono) simp_all
  also have "\<dots> < 2 ^ 53"
  proof -
    from assms(1) have "(of_int \<bar>a\<bar> :: rat) < of_int (2 ^ 53)" by (simp only: of_int_less_iff)
    then show ?thesis by simp
  qed
  also have "(2::rat) ^ 53 \<le> 2 ^ 1024" by (rule power_increasing) simp_all
  finally have "\<not> double_overflow \<le> \<bar>nearest_double a (2 ^ k)\<bar>"
    by (simp add: x double_overflow_def)
  then show ?thesis by (simp add: py_truediv_def Let_def x)
qed

lemma nearest_double_power:
  assumes "k \<le> m"
  shows "nearest_double (2 ^ m) (2 ^ k) = 2 ^ (m - k)"
proof -
  define n where "n = m - k"
  with assms have m: "m = k + n" by simp
  have nz: "(2 ^ (k + n) :: int) \<noteq> 0" by simp
  have ab: "\<bar>2 ^ (k + n) :: int\<bar> = 2 ^ (k + n)" "\<bar>2 ^ k :: int\<bar> = 2 ^ k" by simp_all
  have bl: "bit_length (2 ^ (k + n)) = Suc (k + n)" "bit_length (2 ^ k) = Suc k"
    by (simp_all only: bit_length_power)
  have "(2::int) ^ k * 2 ^ Suc (k + n) \<le> 2 ^ (k + n) * 2 ^ Suc k" by (simp add: power_add)
  then have "floor_log2 (2 ^ (k + n)) (2 ^ k) = int (Suc (k + n)) - int (Suc k)"
    unfolding floor_log2_def by (simp only: bl if_True)
  then have e: "floor_log2 (2 ^ (k + n)) (2 ^ k) = int n" by simp
  have q: "max (int n - 52) (- 1074) = int n - 52" by simp
  have x: "(of_int (2 ^ (k + n)) :: rat) / of_int (2 ^ k) = 2 ^ n" by (simp add: power_add)
  have u: "(2 ^ n :: rat) / pow2 (int n - 52) = of_int (2 ^ 52)"
  proof (cases "52 \<le> n")
    case True
    then obtain i where i: "n = 52 + i" using le_Suc_ex by blast
    then have "pow2 (int n - 52) = 2 ^ i" by (simp add: pow2_def)
    then show ?thesis by (simp add: i power_add)
  next
    case False
    then obtain i where i: "52 = n + i" "0 < i"
      by (metis less_imp_add_positive not_le)
    then have "int n - 52 = - int i" by simp
    with i(2) have "pow2 (int n - 52) = 1 / 2 ^ i" by (simp add: pow2_def)
    moreover have "(2::rat) ^ 52 = 2 ^ n * 2 ^ i" by (simp only: i(1) power_add)
    ultimately show ?thesis by simp
  qed
  have pz: "pow2 (int n - 52) \<noteq> 0" by (simp add: pow2_def)
  from u pz have v: "pow2 (int n - 52) * of_int (2 ^ 52) = (2 ^ n :: rat)"
    by (simp add: field_simps)
  have r: "py_round ((2 ^ n :: rat) / pow2 (int n - 52)) = 2 ^ 52"
    by (simp only: u py_round_of_int)
  have "nearest_double (2 ^ (k + n)) (2 ^ k) = pow2 (int n - 52) * of_int (2 ^ 52)"
    unfolding nearest_double_def Let_def by (simp only: nz if_False ab e q x r)
  with v show ?thesis by (simp only: m add_diff_cancel_left')
qed

lemma py_truediv_overflow:
  assumes "k + 1024 \<le> m"
  shows "py_truediv (2 ^ m) (2 ^ k) = Inl OverflowError"
proof -
  from assms have "k \<le> m" by simp
  then have x: "nearest_double (2 ^ m) (2 ^ k) = 2 ^ (m - k)" by (rule nearest_double_power)
  from assms have "1024 \<le> m - k" by simp
  then have "(2::rat) ^ 1024 \<le> 2 ^ (m - k)" by (intro power_increasing) simp_all
  then have "double_overflow \<le> \<bar>nearest_double (2 ^ m) (2 ^ k)\<bar>"
    by (simp add: x double_overflow_def)
  then show ?thesis by (simp add: py_truediv_def Let_def)
qed

subsection \<open>The quotient of a rounded quotient\<close>

lemma pow2_powi: "pow2 q = 2 powi q"
  by (simp add: pow2_def power_int_def inverse_eq_divide power_one_over [symmetric])

lemma bit_length_bounds:
  "0 < n \<Longrightarrow> 2 ^ bit_length n \<le> 2 * n \<and> n < 2 ^ bit_length n"
proof (induction n rule: bit_length.induct)
  case (1 n)
  then have bl: "bit_length n = Suc (bit_length (n div 2))" by (simp add: bit_length_pos)
  show ?case
  proof (cases "0 < n div 2")
    case True
    with 1 have "2 ^ bit_length (n div 2) \<le> 2 * (n div 2)"
      and "n div 2 < 2 ^ bit_length (n div 2)" by simp_all
    then show ?thesis unfolding bl by auto
  next
    case False
    with "1.prems" have "n = 1" by auto
    moreover have "bit_length (1 div 2) = 0" by (simp add: bit_length_nonpos)
    ultimately show ?thesis unfolding bl by simp
  qed
qed

lemma bit_length_shift:
  "0 < n \<Longrightarrow> bit_length (2 ^ k * n) = k + bit_length n"
proof (induction k)
  case 0
  then show ?case by simp
next
  case (Suc k)
  then have "0 < 2 ^ Suc k * n" by simp
  then have "bit_length (2 ^ Suc k * n) = Suc (bit_length (2 ^ Suc k * n div 2))"
    by (rule bit_length_pos)
  with Suc show ?case by simp
qed

lemma floor_log2_shift:
  assumes "0 < n"
  shows "floor_log2 (2 ^ k * n) (2 ^ k) = int (bit_length n) - 1"
proof -
  from assms have "2 ^ bit_length n \<le> 2 * n" using bit_length_bounds by blast
  then have "(2 ^ k * 2 ^ k) * 2 ^ bit_length n \<le> (2 ^ k * 2 ^ k) * (2 * n)"
    by (intro mult_left_mono) simp_all
  then have "2 ^ k * 2 ^ (k + bit_length n) \<le> 2 ^ k * n * 2 ^ Suc k"
    by (simp add: power_add mult_ac)
  then show ?thesis
    unfolding floor_log2_def
    by (simp only: bit_length_shift [OF assms] bit_length_power if_True)
qed

text \<open>An integer whose odd part is below \<open>2^53\<close> is a double, so its quotient by any power
  of two, taken of the product, is exact.\<close>

lemma nearest_double_of_product:
  assumes "\<bar>z\<bar> < 2 ^ 53"
  shows "nearest_double (2 ^ k * (2 ^ j * z)) (2 ^ k) = of_int (2 ^ j * z)"
proof (cases "z = 0")
  case True
  then show ?thesis by (simp add: nearest_double_def)
next
  case False
  define m where "m = 2 ^ j * z"
  have mpos: "0 < \<bar>m\<bar>" using False by (simp add: m_def)
  have am: "\<bar>m\<bar> = 2 ^ j * \<bar>z\<bar>" by (simp add: m_def abs_mult)
  have zpos: "0 < \<bar>z\<bar>" using False by simp
  define e where "e = floor_log2 \<bar>2 ^ k * m\<bar> \<bar>2 ^ k\<bar>"
  define q where "q = max (e - 52) (- 1074)"
  have "\<bar>2 ^ k * m\<bar> = 2 ^ k * \<bar>m\<bar>" by (simp add: abs_mult)
  then have "e = int (bit_length \<bar>m\<bar>) - 1"
    unfolding e_def using floor_log2_shift [OF mpos, of k] by simp
  moreover have "bit_length \<bar>m\<bar> = j + bit_length \<bar>z\<bar>"
    unfolding am using zpos by (rule bit_length_shift)
  moreover have "bit_length \<bar>z\<bar> \<le> 53" using assms by (rule bit_length_less)
  ultimately have "e - 52 \<le> int j" by simp
  then have q: "q \<le> int j" unfolding q_def by simp
  define i where "i = nat (int j - q)"
  from q have i: "int j - q = int i" unfolding i_def by simp
  have ulp: "(2::rat) ^ j = pow2 q * 2 ^ i"
  proof -
    have "(2::rat) powi (q + int i) = 2 powi q * 2 powi int i" by (rule power_int_add) simp
    moreover have "q + int i = int j" using i by simp
    ultimately show ?thesis by (simp add: pow2_powi)
  qed
  have pz: "pow2 q \<noteq> 0" by (simp add: pow2_powi)
  have x: "(of_int (2 ^ k * m) :: rat) / of_int (2 ^ k) = of_int m" by simp
  have "(of_int m :: rat) = pow2 q * of_int (z * 2 ^ i)"
    by (simp add: m_def ulp mult_ac)
  with pz have y: "(of_int m :: rat) / pow2 q = of_int (z * 2 ^ i)"
    by (simp add: field_simps)
  have r: "py_round ((of_int m :: rat) / pow2 q) = z * 2 ^ i"
    by (simp only: y py_round_of_int)
  have nz: "2 ^ k * m \<noteq> 0" using mpos by simp
  have "nearest_double (2 ^ k * m) (2 ^ k) =
      pow2 q * of_int (py_round (of_int (2 ^ k * m) / of_int (2 ^ k) / pow2 q))"
    unfolding nearest_double_def Let_def e_def q_def by (simp only: nz if_False)
  also have "\<dots> = pow2 q * of_int (z * 2 ^ i)" by (simp only: x r)
  also have "\<dots> = of_int m" by (simp add: m_def ulp mult_ac)
  finally show ?thesis by (simp only: m_def)
qed

lemma py_round_bounded:
  assumes "\<bar>y\<bar> < of_int n"
  shows "\<bar>py_round y\<bar> \<le> n"
proof -
  have "\<bar>of_int (py_round y) - y\<bar> \<le> 1 / 2" by (rule py_round_near)
  with assms have "\<bar>of_int (py_round y) :: rat\<bar> < of_int n + 1" by linarith
  then have "(of_int \<bar>py_round y\<bar> :: rat) < of_int (n + 1)" by simp
  then have "\<bar>py_round y\<bar> < n + 1" by (simp only: of_int_less_iff)
  then show ?thesis by simp
qed

text \<open>The double nearest to a quotient by a power of two is a multiple of its unit in the
  last place by an integer of at most \<open>2^53\<close> in absolute value.\<close>

lemma nearest_double_significand:
  assumes "a \<noteq> 0"
  shows "\<exists>q z. nearest_double a (2 ^ k) = pow2 q * of_int z \<and> \<bar>z\<bar> \<le> 2 ^ 53"
proof -
  define n where "n = \<bar>a\<bar>"
  have npos: "0 < n" using assms by (simp add: n_def)
  define la where "la = bit_length n"
  define e where "e = floor_log2 n (2 ^ k)"
  define q where "q = max (e - 52) (- 1074)"
  have bnd: "2 ^ la \<le> 2 * n" "n < 2 ^ la"
    unfolding la_def using bit_length_bounds [OF npos] by simp_all
  have lb: "bit_length (2 ^ k :: int) = Suc k" by (rule bit_length_power)
  have up: "(of_int n :: rat) < 2 ^ k * 2 powi (e + 1)"
  proof (cases "(2 ^ k :: int) * 2 ^ la \<le> n * 2 ^ Suc k")
    case True
    then have "e + 1 = int la - int k"
      unfolding e_def floor_log2_def la_def [symmetric] lb by simp
    then have e1: "e + 1 = int la - int k" .
    have "(2::rat) powi (int k + (int la - int k)) = 2 powi int k * 2 powi (int la - int k)"
      by (rule power_int_add) simp
    then have "(2::rat) ^ k * 2 powi (int la - int k) = 2 ^ la" by simp
    then have "(2::rat) ^ k * 2 powi (e + 1) = of_int (2 ^ la)" by (simp add: e1)
    moreover from bnd(2) have "(of_int n :: rat) < of_int (2 ^ la)" by (simp only: of_int_less_iff)
    ultimately show ?thesis by simp
  next
    case False
    then have e1: "e + 1 = int la - int k - 1"
      unfolding e_def floor_log2_def la_def [symmetric] lb by simp
    from False have "n * (2 * 2 ^ k) < 2 ^ la * 2 ^ k" by (simp add: mult_ac)
    then have n2: "2 * n < 2 ^ la" by simp
    then have "la \<noteq> 0" using npos by (cases la) auto
    then obtain l where l: "la = Suc l" by (cases la) auto
    from n2 have nl: "n < 2 ^ l" by (simp add: l)
    from e1 have e2: "e + 1 = int l - int k" by (simp add: l)
    have "(2::rat) powi (int k + (int l - int k)) = 2 powi int k * 2 powi (int l - int k)"
      by (rule power_int_add) simp
    then have "(2::rat) ^ k * 2 powi (int l - int k) = 2 ^ l" by simp
    then have "(2::rat) ^ k * 2 powi (e + 1) = of_int (2 ^ l)" by (simp add: e2)
    moreover from nl have "(of_int n :: rat) < of_int (2 ^ l)" by (simp only: of_int_less_iff)
    ultimately show ?thesis by simp
  qed
  have "e - 52 + 53 = e + 1" by simp
  then have "(2::rat) powi (e + 1) = 2 powi (e - 52 + 53)" by (simp only:)
  also have "\<dots> = 2 powi (e - 52) * 2 powi 53" by (rule power_int_add) simp
  finally have "(2::rat) powi (e + 1) = 2 powi (e - 52) * 2 powi 53" .
  moreover have "(2::rat) powi (e - 52) \<le> 2 powi q"
    by (rule power_int_increasing) (simp_all add: q_def)
  ultimately have "(2::rat) powi (e + 1) \<le> 2 powi q * 2 ^ 53" by simp
  then have h: "(2::rat) ^ k * 2 powi (e + 1) \<le> 2 ^ k * (2 powi q * 2 ^ 53)"
    by (intro mult_left_mono) simp_all
  from up h have "(of_int n :: rat) < 2 ^ k * (2 powi q * 2 ^ 53)" by (rule less_le_trans)
  then have lt: "(of_int n :: rat) < 2 ^ 53 * (2 ^ k * 2 powi q)" by (simp only: mult_ac)
  have dpos: "(0::rat) < 2 ^ k * 2 powi q" by simp
  have "\<bar>of_int a / of_int (2 ^ k) / pow2 q :: rat\<bar> = of_int n / (2 ^ k * 2 powi q)"
    by (simp add: n_def pow2_powi abs_divide abs_mult power_int_abs)
  also have "\<dots> < 2 ^ 53" using lt dpos by (simp only: pos_divide_less_eq)
  finally have "\<bar>of_int a / of_int (2 ^ k) / pow2 q :: rat\<bar> < of_int (2 ^ 53)" by simp
  then have z: "\<bar>py_round (of_int a / of_int (2 ^ k) / pow2 q)\<bar> \<le> 2 ^ 53"
    by (rule py_round_bounded)
  have "nearest_double a (2 ^ k) =
      pow2 q * of_int (py_round (of_int a / of_int (2 ^ k) / pow2 q))"
    unfolding nearest_double_def Let_def q_def e_def n_def using assms by simp
  with z show ?thesis by blast
qed

text \<open>The integer nearest to a float quotient by a power of two is itself a double: a
  power of two times an integer below \<open>2^53\<close>, and below the overflow threshold.\<close>

lemma py_round_double:
  assumes "py_truediv a (2 ^ k) = Inr v"
  shows "\<exists>j z. py_round v = 2 ^ j * z \<and> \<bar>z\<bar> < 2 ^ 53"
    and "\<not> double_overflow \<le> \<bar>of_int (py_round v)\<bar>"
proof -
  from assms have v: "v = nearest_double a (2 ^ k)" and ov: "\<not> double_overflow \<le> \<bar>v\<bar>"
    by (simp_all add: py_truediv_def Let_def split: if_splits)
  have small: "(2::rat) ^ 53 < double_overflow"
    unfolding double_overflow_def by (rule power_strict_increasing) simp_all
  have "(\<exists>j z. py_round v = 2 ^ j * z \<and> \<bar>z\<bar> < 2 ^ 53)
      \<and> \<not> double_overflow \<le> \<bar>of_int (py_round v)\<bar>"
  proof (cases "a = 0")
    case True
    then have "v = 0" by (simp add: v nearest_double_def)
    then have r: "py_round v = 0" using py_round_of_int [of 0] by simp
    then have "py_round v = 2 ^ 0 * 0 \<and> \<bar>0::int\<bar> < 2 ^ 53" by simp
    then have "\<exists>j z. py_round v = 2 ^ j * z \<and> \<bar>z\<bar> < 2 ^ 53" by blast
    moreover have "\<not> double_overflow \<le> \<bar>of_int (py_round v)\<bar>"
      using small by (simp add: r)
    ultimately show ?thesis by blast
  next
    case False
    then obtain q z where vz: "v = pow2 q * of_int z" and z: "\<bar>z\<bar> \<le> 2 ^ 53"
      unfolding v using nearest_double_significand [of a k] by blast
    show ?thesis
    proof (cases "0 \<le> q")
      case True
      then have vi: "v = of_int (2 ^ nat q * z)" by (simp add: vz pow2_def)
      then have m: "py_round v = 2 ^ nat q * z" by (simp only: py_round_of_int)
      from ov [unfolded vi] have o: "\<not> double_overflow \<le> \<bar>of_int (py_round v)\<bar>"
        unfolding m .
      have "\<exists>j z'. py_round v = 2 ^ j * z' \<and> \<bar>z'\<bar> < 2 ^ 53"
      proof (cases "\<bar>z\<bar> < 2 ^ 53")
        case True
        with m show ?thesis by blast
      next
        case False
        with z have "z = 2 ^ 53 \<or> z = - (2 ^ 53)" by linarith
        then have "z = 2 * (z div 2) \<and> \<bar>z div 2\<bar> < 2 ^ 53" by auto
        then have "py_round v = 2 ^ Suc (nat q) * (z div 2) \<and> \<bar>z div 2\<bar> < 2 ^ 53"
          using m by simp
        then show ?thesis by blast
      qed
      with o show ?thesis by blast
    next
      case False
      then obtain i where i: "nat (- q) = Suc i" by (cases "nat (- q)") auto
      with False have u: "pow2 q = 1 / 2 ^ Suc i" by (simp add: pow2_def)
      have "\<bar>v\<bar> = \<bar>of_int z\<bar> / 2 ^ Suc i" by (simp add: vz u abs_mult abs_divide)
      also have "\<dots> \<le> \<bar>of_int z\<bar> / 2 ^ Suc 0"
      proof (rule divide_left_mono)
        show "(2::rat) ^ Suc 0 \<le> 2 ^ Suc i" by (rule power_increasing) simp_all
      qed simp_all
      also have "\<dots> \<le> 2 ^ 53 / 2 ^ Suc 0"
      proof -
        from z have "(of_int \<bar>z\<bar> :: rat) \<le> of_int (2 ^ 53)" by (simp only: of_int_le_iff)
        then have "\<bar>of_int z :: rat\<bar> \<le> 2 ^ 53" by simp
        then show ?thesis by (rule divide_right_mono) simp
      qed
      finally have "\<bar>v\<bar> < of_int (2 ^ 52 + 1)" by simp
      then have m: "\<bar>py_round v\<bar> \<le> 2 ^ 52 + 1" by (rule py_round_bounded)
      then have "py_round v = 2 ^ 0 * py_round v \<and> \<bar>py_round v\<bar> < 2 ^ 53" by simp
      then have "\<exists>j z'. py_round v = 2 ^ j * z' \<and> \<bar>z'\<bar> < 2 ^ 53" by blast
      moreover have "\<not> double_overflow \<le> \<bar>of_int (py_round v)\<bar>"
      proof -
        from m have "(of_int \<bar>py_round v\<bar> :: rat) \<le> of_int (2 ^ 52 + 1)"
          by (simp only: of_int_le_iff)
        then have "\<bar>of_int (py_round v) :: rat\<bar> < 2 ^ 53" by simp
        with small show ?thesis by simp
      qed
      ultimately show ?thesis by blast
    qed
  qed
  then show "\<exists>j z. py_round v = 2 ^ j * z \<and> \<bar>z\<bar> < 2 ^ 53"
    and "\<not> double_overflow \<le> \<bar>of_int (py_round v)\<bar>" by blast+
qed

lemma py_truediv_stable:
  assumes "py_truediv a (2 ^ k) = Inr v"
  shows "py_truediv (2 ^ k * py_round v) (2 ^ k) = Inr (of_int (py_round v))"
proof -
  from py_round_double(1) [OF assms] obtain j z
    where m: "py_round v = 2 ^ j * z" and z: "\<bar>z\<bar> < 2 ^ 53" by blast
  from z have "nearest_double (2 ^ k * (2 ^ j * z)) (2 ^ k) = of_int (2 ^ j * z)"
    by (rule nearest_double_of_product)
  then have x: "nearest_double (2 ^ k * py_round v) (2 ^ k) = of_int (py_round v)"
    by (simp only: m)
  from py_round_double(2) [OF assms] show ?thesis
    by (simp add: py_truediv_def Let_def x)
qed

section \<open>The grid aligner and its specification\<close>

lemma is_pow2_power: "is_pow2 (2 ^ k)"
  unfolding is_pow2_def by (rule exI [of _ k]) simp

lemma is_pow2_pos: "is_pow2 n \<Longrightarrow> 0 < n"
  unfolding is_pow2_def by auto

lemma is_pow2_accepted: "is_pow2 n \<Longrightarrow> str_count (py_bin n) CHR ''1'' = 1"
proof -
  assume "is_pow2 n"
  then obtain k :: nat where "n = 2 ^ k" unfolding is_pow2_def by blast
  then have "\<bar>n\<bar> = 2 ^ k" by simp
  then have "\<exists>k. \<bar>n\<bar> = 2 ^ k" by (rule exI)
  then show ?thesis by (simp only: str_count_py_bin)
qed

lemma tick_pos:
  assumes "is_pow2 b" "is_pow2 p" "p \<le> b"
  shows "0 < b div p"
proof -
  from assms(2) have "0 < p" by (rule is_pow2_pos)
  with assms(3) show ?thesis by (simp add: pos_imp_zdiv_pos_iff)
qed

lemma tick_zero:
  assumes "is_pow2 b" "is_pow2 p" "b < p"
  shows "b div p = 0"
proof -
  from assms(1) have "0 < b" by (rule is_pow2_pos)
  with assms(3) show ?thesis by simp
qed

lemma tick_pow2:
  assumes "is_pow2 b" "is_pow2 p" "p \<le> b"
  shows "is_pow2 (b div p)" and "b div p \<le> b"
proof -
  from assms(1) obtain i :: nat where i: "b = 2 ^ i" unfolding is_pow2_def by blast
  from assms(2) obtain j :: nat where j: "p = 2 ^ j" unfolding is_pow2_def by blast
  from assms(3) have "j \<le> i" unfolding i j by (simp only: power_le_imp_le_exp [of 2] one_less_numeral_iff semiring_norm)
  then have t: "b div p = 2 ^ (i - j)" unfolding i j by (simp add: power_diff)
  then show "is_pow2 (b div p)" by (simp only: is_pow2_power)
  have "(2::int) ^ (i - j) \<le> 2 ^ i" by (rule power_increasing) simp_all
  with t show "b div p \<le> b" by (simp only: i)
qed

subsection \<open>One message\<close>

lemma align_message_other:
  "\<not> is_note_message m \<Longrightarrow> align_message tick shift m = Inr (shift, m)"
  by (simp add: align_message_def is_note_message_def)

lemma align_message_zero_tick:
  "is_note_message m \<Longrightarrow> align_message 0 shift m = Inl ZeroDivisionError"
  by (simp add: align_message_def is_note_message_def py_mod_def)

lemma align_message_note:
  assumes "is_note_message m" "tick \<noteq> 0"
  shows "align_message tick shift m =
    (if msg_time m + shift mod tick \<noteq> 0
     then (case py_truediv (msg_time m + shift) tick of
             Inl e \<Rightarrow> Inl e
           | Inr q \<Rightarrow> Inr (msg_time m + shift - tick * py_round q,
                          m\<lparr>msg_time := tick * py_round q\<rparr>))
     else Inr (shift, m))"
  using assms
  by (simp add: align_message_def is_note_message_def py_mod_def Let_def split: sum.splits)

text \<open>Where the quotient is exact: the grid unit is a power of two of at most \<open>2^52\<close> and
  the delta-time plus the carried shift is below \<open>2^53\<close> in absolute value.\<close>

lemma align_message_exact:
  assumes "is_note_message m" "is_pow2 tick" "tick \<le> 2 ^ 52"
    and "\<bar>msg_time m + shift\<bar> < 2 ^ 53"
  shows "align_message tick shift m =
    (if msg_time m + shift mod tick \<noteq> 0
     then Inr (msg_time m + shift - tick * py_round (of_int (msg_time m + shift) / of_int tick),
               m\<lparr>msg_time := tick * py_round (of_int (msg_time m + shift) / of_int tick)\<rparr>)
     else Inr (shift, m))"
proof -
  from assms(2) obtain k :: nat where k: "tick = 2 ^ k" unfolding is_pow2_def by blast
  from assms(3) have "(2::int) ^ k \<le> 2 ^ 52" by (simp only: k)
  then have "k \<le> 52" by (rule power_le_imp_le_exp [rotated]) simp
  then have "k \<le> 1074" by simp
  with assms(4) have "py_truediv (msg_time m + shift) (2 ^ k) =
      Inr (of_int (msg_time m + shift) / of_int (2 ^ k))"
    by (rule py_truediv_exact)
  moreover have "tick \<noteq> 0" by (simp add: k)
  ultimately show ?thesis
    using assms(1) by (simp add: align_message_note k)
qed

lemma carry_in_range:
  fixes t shift tick :: int
  assumes "2 * \<bar>shift\<bar> \<le> tick" "tick \<le> 2 ^ 52" "\<bar>t\<bar> < 2 ^ 52"
  shows "\<bar>t + shift\<bar> < 2 ^ 53"
  using assms by simp

lemma small_multiple_zero:
  fixes shift tick :: int
  assumes "0 < tick" "2 * \<bar>shift\<bar> \<le> tick" "shift mod tick = 0"
  shows "shift = 0"
proof -
  from assms(3) have "tick dvd shift" by (simp add: dvd_eq_mod_eq_0)
  then obtain k where k: "shift = tick * k" by (rule dvdE)
  have "\<bar>shift\<bar> < tick" using assms(1,2) by linarith
  then have "\<bar>tick\<bar> * \<bar>k\<bar> < \<bar>tick\<bar> * 1" using assms(1) by (simp add: k abs_mult)
  then have "\<bar>k\<bar> < 1" using assms(1) by (simp only: mult_less_cancel_left_pos abs_of_pos)
  then show ?thesis by (simp add: k)
qed

text \<open>On a message with a non-negative delta-time below \<open>2^52\<close>, and with a carry of at
  most half a grid unit, the guarded body of the source does what the unguarded formula
  does.\<close>

lemma align_message_formula:
  assumes "is_note_message m" "is_pow2 tick" "tick \<le> 2 ^ 52" "2 * \<bar>shift\<bar> \<le> tick"
    and "0 \<le> msg_time m" "msg_time m < 2 ^ 52"
  shows "align_message tick shift m =
     Inr (msg_time m + shift - tick * py_round (of_int (msg_time m + shift) / of_int tick),
          m\<lparr>msg_time := tick * py_round (of_int (msg_time m + shift) / of_int tick)\<rparr>)"
proof -
  have pos: "0 < tick" using assms(2) by (rule is_pow2_pos)
  from assms(5,6) have "\<bar>msg_time m\<bar> < 2 ^ 52" by simp
  with assms(4,3) have "\<bar>msg_time m + shift\<bar> < 2 ^ 53" by (rule carry_in_range)
  note exact = align_message_exact [OF assms(1,2,3) this]
  show ?thesis
  proof (cases "msg_time m + shift mod tick \<noteq> 0")
    case True
    with exact show ?thesis by simp
  next
    case False
    have "0 \<le> shift mod tick" using pos by simp
    with False assms(5) have t0: "msg_time m = 0" and s0: "shift mod tick = 0" by linarith+
    from pos assms(4) s0 have sh: "shift = 0" by (rule small_multiple_zero)
    have "m\<lparr>msg_time := 0\<rparr> = m" using t0 by (cases m) simp
    with False exact t0 sh show ?thesis
      by (simp add: py_round_def)
  qed
qed

subsection \<open>One track\<close>

lemma align_messages_quantize:
  assumes "is_pow2 tick" "tick \<le> 2 ^ 52" "2 * \<bar>shift\<bar> \<le> tick"
    and "\<forall>m\<in>set ms. 0 \<le> msg_time m \<and> msg_time m < 2 ^ 52"
  shows "\<exists>shift'. align_messages tick shift ms = (None, shift', quantize_track tick shift ms)"
  using assms(3,4)
proof (induction ms arbitrary: shift)
  case Nil
  then show ?case by simp
next
  case (Cons m ms)
  have pos: "0 < tick" using assms(1) by (rule is_pow2_pos)
  show ?case
  proof (cases "is_note_message m")
    case False
    from Cons.IH [of shift] Cons.prems
    obtain s' where "align_messages tick shift ms = (None, s', quantize_track tick shift ms)"
      by auto
    with False show ?thesis by (simp add: align_message_other)
  next
    case True
    define q where "q = tick * py_round (of_int (msg_time m + shift) / of_int tick)"
    from Cons.prems(2) have t: "0 \<le> msg_time m" "msg_time m < 2 ^ 52" by simp_all
    have step: "align_message tick shift m = Inr (msg_time m + shift - q, m\<lparr>msg_time := q\<rparr>)"
      unfolding q_def using True assms(1,2) Cons.prems(1) t by (rule align_message_formula)
    have "2 * \<bar>msg_time m + shift - q\<bar> \<le> tick"
      unfolding q_def using pos by (rule quantize_error)
    with Cons.IH [of "msg_time m + shift - q"] Cons.prems
    obtain s' where "align_messages tick (msg_time m + shift - q) ms =
        (None, s', quantize_track tick (msg_time m + shift - q) ms)"
      by auto
    with True step show ?thesis by (simp add: Let_def q_def)
  qed
qed

lemma align_track_quantize:
  assumes "is_pow2 tick" "tick \<le> 2 ^ 52"
    and "\<forall>m\<in>set t. 0 \<le> msg_time m \<and> msg_time m < 2 ^ 52"
  shows "align_track tick t = (None, quantize_track tick 0 t)"
proof -
  have "0 < tick" using assms(1) by (rule is_pow2_pos)
  then have "2 * \<bar>0::int\<bar> \<le> tick" by simp
  with assms obtain s' where "align_messages tick 0 t = (None, s', quantize_track tick 0 t)"
    using align_messages_quantize [of tick 0 t] by blast
  then show ?thesis by (simp add: align_track_def)
qed

lemma align_tracks_quantize:
  assumes "is_pow2 tick" "tick \<le> 2 ^ 52"
    and "\<forall>t\<in>set ts. \<forall>m\<in>set t. 0 \<le> msg_time m \<and> msg_time m < 2 ^ 52"
  shows "align_tracks tick ts = (None, map (quantize_track tick 0) ts)"
  using assms(3)
proof (induction ts)
  case Nil
  then show ?case by simp
next
  case (Cons t ts)
  then have "\<forall>m\<in>set t. 0 \<le> msg_time m \<and> msg_time m < 2 ^ 52" by simp
  with assms(1,2) have "align_track tick t = (None, quantize_track tick 0 t)"
    by (rule align_track_quantize)
  with Cons show ?case by simp
qed

lemma align_accepted:
  assumes "is_pow2 (ticks_per_beat s)" "is_pow2 p"
  shows "align s p =
    (case align_tracks (ticks_per_beat s div p) (tracks s) of (e, ts') \<Rightarrow> (e, s\<lparr>tracks := ts'\<rparr>))"
proof -
  from assms(2) have "p \<noteq> 0" using is_pow2_pos [of p] by simp
  with assms show ?thesis
    by (simp add: align_def is_pow2_accepted py_floordiv_def)
qed

subsection \<open>Normal return and the carried error\<close>

lemma note_time_sum_Cons:
  "note_time_sum (m # ms) = (if is_note_message m then msg_time m else 0) + note_time_sum ms"
  by (simp add: note_time_sum_def)

lemma note_time_sum_Nil: "note_time_sum [] = 0"
  by (simp add: note_time_sum_def)

lemma align_message_sum:
  assumes "align_message tick shift m = Inr (shift', m')"
  shows "(if is_note_message m then msg_time m else 0) + shift
       = (if is_note_message m' then msg_time m' else 0) + shift'"
proof (cases "is_note_message m")
  case False
  with assms show ?thesis by (simp add: align_message_other)
next
  case True
  with assms have "tick \<noteq> 0"
    by (auto simp: align_message_zero_tick)
  with True assms show ?thesis
    by (auto simp: align_message_note is_note_message_def split: if_splits sum.splits)
qed

lemma align_message_carry:
  assumes "is_pow2 tick" "tick \<le> 2 ^ 52" "2 * \<bar>shift\<bar> \<le> tick" "\<bar>msg_time m\<bar> < 2 ^ 52"
  shows "\<exists>shift' m'. align_message tick shift m = Inr (shift', m') \<and> 2 * \<bar>shift'\<bar> \<le> tick"
proof (cases "is_note_message m")
  case False
  with assms(3) show ?thesis by (simp add: align_message_other)
next
  case True
  have pos: "0 < tick" using assms(1) by (rule is_pow2_pos)
  from assms(3,2,4) have "\<bar>msg_time m + shift\<bar> < 2 ^ 53" by (rule carry_in_range)
  note exact = align_message_exact [OF True assms(1,2) this]
  show ?thesis
  proof (cases "msg_time m + shift mod tick \<noteq> 0")
    case True
    have "2 * \<bar>msg_time m + shift
        - tick * py_round (of_int (msg_time m + shift) / of_int tick)\<bar> \<le> tick"
      using pos by (rule quantize_error)
    with True exact show ?thesis by simp
  next
    case False
    with exact assms(3) show ?thesis by simp
  qed
qed

lemma align_messages_carry:
  assumes "is_pow2 tick" "tick \<le> 2 ^ 52" "2 * \<bar>shift\<bar> \<le> tick"
    and "\<forall>m\<in>set ms. \<bar>msg_time m\<bar> < 2 ^ 52"
  shows "\<exists>shift' ms'. align_messages tick shift ms = (None, shift', ms') \<and> 2 * \<bar>shift'\<bar> \<le> tick"
  using assms(3,4)
proof (induction ms arbitrary: shift)
  case Nil
  then show ?case by simp
next
  case (Cons m ms)
  from Cons.prems(2) have "\<bar>msg_time m\<bar> < 2 ^ 52" by simp
  with assms(1,2) Cons.prems(1)
  obtain s1 m1 where step: "align_message tick shift m = Inr (s1, m1)"
    and s1: "2 * \<bar>s1\<bar> \<le> tick"
    using align_message_carry [of tick shift m] by blast
  from Cons.prems(2) have "\<forall>m\<in>set ms. \<bar>msg_time m\<bar> < 2 ^ 52" by simp
  with Cons.IH [OF s1]
  obtain s2 ms2 where "align_messages tick s1 ms = (None, s2, ms2)" "2 * \<bar>s2\<bar> \<le> tick"
    by blast
  with step show ?case by simp
qed

lemma align_messages_sum:
  "align_messages tick shift ms = (None, shift', ms') \<Longrightarrow>
     note_time_sum ms + shift = note_time_sum ms' + shift'"
proof (induction ms arbitrary: shift ms')
  case Nil
  then show ?case by (simp add: note_time_sum_Nil)
next
  case (Cons m ms)
  from Cons.prems obtain s1 m1 ms1 where
    step: "align_message tick shift m = Inr (s1, m1)"
    and rest: "align_messages tick s1 ms = (None, shift', ms1)"
    and res: "ms' = m1 # ms1"
    by (auto split: sum.splits prod.splits)
  from Cons.IH [OF rest] have "note_time_sum ms + s1 = note_time_sum ms1 + shift'" .
  with align_message_sum [OF step] res show ?case
    by (simp add: note_time_sum_Cons)
qed

lemma align_track_drift:
  assumes "is_pow2 tick" "tick \<le> 2 ^ 52" "\<forall>m\<in>set t. \<bar>msg_time m\<bar> < 2 ^ 52"
  shows "fst (align_track tick t) = None"
    and "2 * \<bar>note_time_sum (snd (align_track tick t)) - note_time_sum t\<bar> \<le> tick"
proof -
  have "0 < tick" using assms(1) by (rule is_pow2_pos)
  then have "2 * \<bar>0::int\<bar> \<le> tick" by simp
  with assms obtain s' t' where r: "align_messages tick 0 t = (None, s', t')"
    and s': "2 * \<bar>s'\<bar> \<le> tick"
    using align_messages_carry [of tick 0 t] by blast
  from r show "fst (align_track tick t) = None" by (simp add: align_track_def)
  from r have "note_time_sum t + 0 = note_time_sum t' + s'" by (rule align_messages_sum)
  moreover have "snd (align_track tick t) = t'" using r by (simp add: align_track_def)
  ultimately show "2 * \<bar>note_time_sum (snd (align_track tick t)) - note_time_sum t\<bar> \<le> tick"
    using s' by simp
qed

lemma align_tracks_each:
  assumes "is_pow2 tick" "tick \<le> 2 ^ 52"
    and "\<forall>t\<in>set ts. \<forall>m\<in>set t. \<bar>msg_time m\<bar> < 2 ^ 52"
  shows "align_tracks tick ts = (None, map (\<lambda>t. snd (align_track tick t)) ts)"
  using assms(3)
proof (induction ts)
  case Nil
  then show ?case by simp
next
  case (Cons t ts)
  then have "\<forall>m\<in>set t. \<bar>msg_time m\<bar> < 2 ^ 52" by simp
  with assms(1,2) have "fst (align_track tick t) = None" by (rule align_track_drift)
  then obtain t' where "align_track tick t = (None, t')" by (cases "align_track tick t") auto
  with Cons show ?case by simp
qed

subsection \<open>A note event on the grid\<close>

lemma align_message_on_grid:
  assumes "is_pow2 tick" "tick \<le> 2 ^ 52"
    and "is_note_message m \<longrightarrow> tick dvd msg_time m \<and> \<bar>msg_time m\<bar> < 2 ^ 53"
  shows "align_message tick 0 m = Inr (0, m)"
proof (cases "is_note_message m")
  case False
  then show ?thesis by (simp add: align_message_other)
next
  case True
  have nz: "tick \<noteq> 0" using is_pow2_pos [OF assms(1)] by simp
  from True assms(3) have "\<bar>msg_time m + 0\<bar> < 2 ^ 53" by simp
  note exact = align_message_exact [OF True assms(1,2) this]
  from True assms(3) nz have "tick * py_round (of_int (msg_time m) / of_int tick) = msg_time m"
    by (simp add: quantize_on_grid)
  moreover have "m\<lparr>msg_time := msg_time m\<rparr> = m" by simp
  moreover have "m\<lparr>msg_time := 0\<rparr> = m" if "msg_time m = 0" using that by (cases m) simp
  ultimately show ?thesis
    using exact nz by simp
qed

subsection \<open>A second pass after a first pass that returned\<close>

lemma align_message_stable:
  assumes "is_pow2 tick" "0 \<le> msg_time m" "align_message tick shift m = Inr (shift', m')"
  shows "align_message tick 0 m' = Inr (0, m')"
    and "is_note_message m' \<longrightarrow> tick dvd msg_time m'"
proof -
  have "align_message tick 0 m' = Inr (0, m') \<and> (is_note_message m' \<longrightarrow> tick dvd msg_time m')"
  proof (cases "is_note_message m")
    case False
    with assms(3) have "m' = m" by (simp add: align_message_other)
    with False show ?thesis by (simp add: align_message_other)
  next
    case True
    from assms(1) obtain k :: nat where k: "tick = 2 ^ k" unfolding is_pow2_def by blast
    have pos: "0 < tick" using assms(1) by (rule is_pow2_pos)
    then have nz: "tick \<noteq> 0" by simp
    note step = assms(3) [unfolded align_message_note [OF True nz]]
    show ?thesis
    proof (cases "msg_time m + shift mod tick \<noteq> 0")
      case False
      have "0 \<le> shift mod tick" using pos by simp
      with False assms(2) have t0: "msg_time m = 0" by linarith
      from False step have "m' = m" by simp
      with True nz t0 show ?thesis by (simp add: align_message_note)
    next
      case c: True
      with step obtain v where v: "py_truediv (msg_time m + shift) tick = Inr v"
        and m': "m' = m\<lparr>msg_time := tick * py_round v\<rparr>"
        by (auto split: sum.splits)
      from True m' have n': "is_note_message m'" by (simp add: is_note_message_def)
      have t': "msg_time m' = tick * py_round v" by (simp add: m')
      have d: "py_truediv (tick * py_round v) tick = Inr (of_int (py_round v))"
        using v unfolding k by (rule py_truediv_stable)
      have same: "m'\<lparr>msg_time := tick * py_round v\<rparr> = m'" by (simp add: m')
      have "align_message tick 0 m' = Inr (0, m')"
        using same by (simp add: align_message_note [OF n' nz] t' d py_round_of_int)
      with t' show ?thesis by simp
    qed
  qed
  then show "align_message tick 0 m' = Inr (0, m')"
    and "is_note_message m' \<longrightarrow> tick dvd msg_time m'" by blast+
qed

lemma align_messages_stable:
  assumes "is_pow2 tick"
  shows "\<forall>m\<in>set ms. 0 \<le> msg_time m \<Longrightarrow> align_messages tick shift ms = (None, shift', ms') \<Longrightarrow>
     align_messages tick 0 ms' = (None, 0, ms')
     \<and> (\<forall>m'\<in>set ms'. is_note_message m' \<longrightarrow> tick dvd msg_time m')"
proof (induction ms arbitrary: shift ms')
  case Nil
  then show ?case by simp
next
  case (Cons m ms)
  from Cons.prems(2) obtain s1 m1 ms1 where
    step: "align_message tick shift m = Inr (s1, m1)"
    and rest: "align_messages tick s1 ms = (None, shift', ms1)"
    and res: "ms' = m1 # ms1"
    by (auto split: sum.splits prod.splits)
  from Cons.prems(1) have t: "0 \<le> msg_time m" and ts: "\<forall>m\<in>set ms. 0 \<le> msg_time m"
    by simp_all
  from Cons.IH [OF ts rest]
  have ih: "align_messages tick 0 ms1 = (None, 0, ms1)"
    "\<forall>m'\<in>set ms1. is_note_message m' \<longrightarrow> tick dvd msg_time m'" by simp_all
  from align_message_stable [OF assms t step]
  have "align_message tick 0 m1 = Inr (0, m1)" "is_note_message m1 \<longrightarrow> tick dvd msg_time m1"
    by simp_all
  with ih res show ?case by simp
qed

lemma align_tracks_stable:
  assumes "is_pow2 tick"
  shows "\<forall>t\<in>set ts. \<forall>m\<in>set t. 0 \<le> msg_time m \<Longrightarrow> align_tracks tick ts = (None, ts') \<Longrightarrow>
     align_tracks tick ts' = (None, ts')
     \<and> (\<forall>t'\<in>set ts'. \<forall>m'\<in>set t'. is_note_message m' \<longrightarrow> tick dvd msg_time m')"
proof (induction ts arbitrary: ts')
  case Nil
  then show ?case by simp
next
  case (Cons t ts)
  obtain e s1 t1 where r: "align_messages tick 0 t = (e, s1, t1)"
    by (cases "align_messages tick 0 t") auto
  obtain e2 ts2 where r2: "align_tracks tick ts = (e2, ts2)" by (cases "align_tracks tick ts")
  from Cons.prems(2) r r2 have e: "e = None" and e2: "e2 = None" and res: "ts' = t1 # ts2"
    by (auto simp: align_track_def split: option.splits)
  from Cons.prems(1) have t: "\<forall>m\<in>set t. 0 \<le> msg_time m"
    and ts: "\<forall>t\<in>set ts. \<forall>m\<in>set t. 0 \<le> msg_time m" by simp_all
  from align_messages_stable [OF assms t r [unfolded e]]
  have "align_messages tick 0 t1 = (None, 0, t1)"
    "\<forall>m'\<in>set t1. is_note_message m' \<longrightarrow> tick dvd msg_time m'" by simp_all
  moreover from Cons.IH [OF ts r2 [unfolded e2]]
  have "align_tracks tick ts2 = (None, ts2)"
    "\<forall>t'\<in>set ts2. \<forall>m'\<in>set t'. is_note_message m' \<longrightarrow> tick dvd msg_time m'" by simp_all
  ultimately show ?case by (simp add: res align_track_def)
qed

subsection \<open>A grid unit of zero\<close>

lemma align_messages_zero_tick:
  "align_messages 0 shift ms =
     (if \<exists>m\<in>set ms. is_note_message m then Some ZeroDivisionError else None, shift, ms)"
proof (induction ms)
  case Nil
  then show ?case by simp
next
  case (Cons m ms)
  then show ?case
    by (cases "is_note_message m") (simp_all add: align_message_zero_tick align_message_other)
qed

lemma align_tracks_zero_tick:
  "align_tracks 0 ts =
     (if \<exists>t\<in>set ts. \<exists>m\<in>set t. is_note_message m then Some ZeroDivisionError else None, ts)"
proof (induction ts)
  case Nil
  then show ?case by simp
next
  case (Cons t ts)
  then show ?case
    by (cases "\<exists>m\<in>set t. is_note_message m")
      (simp_all add: align_track_def align_messages_zero_tick)
qed

subsection \<open>The two tests on entry\<close>

lemma align_rejects:
  assumes "(\<nexists>k::nat. \<bar>ticks_per_beat s\<bar> = 2 ^ k) \<or> (\<nexists>k::nat. \<bar>p\<bar> = 2 ^ k)"
  shows "align s p = (Some ValueError, s)"
  using assms by (auto simp: align_def str_count_py_bin)

section \<open>The two loops of shift-up and shift-down\<close>

lemma raise_note_step:
  "n < 127 \<Longrightarrow> n \<notin> set ns \<Longrightarrow> raise_note ns n = raise_note ns (n + 1)"
  by (subst raise_note.simps) simp

lemma raise_note_member: "n \<in> set ns \<Longrightarrow> raise_note ns n = n"
  by (subst raise_note.simps) simp

lemma raise_note_top: "127 \<le> n \<Longrightarrow> raise_note ns n = n"
  by (subst raise_note.simps) simp

lemma lower_note_step:
  "0 < n \<Longrightarrow> n \<notin> set ns \<Longrightarrow> lower_note ns n = lower_note ns (n - 1)"
  by (subst lower_note.simps) simp

lemma lower_note_member: "n \<in> set ns \<Longrightarrow> lower_note ns n = n"
  by (subst lower_note.simps) simp

lemma lower_note_bottom: "n \<le> 0 \<Longrightarrow> lower_note ns n = n"
  by (subst lower_note.simps) simp

lemma raise_note_done: "\<not> (n < 127 \<and> n \<notin> set ns) \<Longrightarrow> raise_note ns n = n"
  by (subst raise_note.simps) auto

lemma lower_note_done: "\<not> (0 < n \<and> n \<notin> set ns) \<Longrightarrow> lower_note ns n = n"
  by (subst lower_note.simps) auto

lemma raise_note_ge: "n \<le> raise_note ns n"
proof (induction ns n rule: raise_note.induct)
  case (1 ns n)
  show ?case
  proof (cases "n < 127 \<and> n \<notin> set ns")
    case True
    with 1 have "n + 1 \<le> raise_note ns (n + 1)" by simp
    with True show ?thesis by (simp add: raise_note_step)
  next
    case False
    then have "raise_note ns n = n" by (rule raise_note_done)
    then show ?thesis by simp
  qed
qed

lemma raise_note_stop: "raise_note ns n \<in> set ns \<or> 127 \<le> raise_note ns n"
proof (induction ns n rule: raise_note.induct)
  case (1 ns n)
  show ?case
  proof (cases "n < 127 \<and> n \<notin> set ns")
    case True
    with 1 show ?thesis by (simp add: raise_note_step)
  next
    case False
    then have "raise_note ns n = n" by (rule raise_note_done)
    with False show ?thesis by auto
  qed
qed

lemma raise_note_skips: "n \<le> k \<Longrightarrow> k < raise_note ns n \<Longrightarrow> k \<notin> set ns"
proof (induction ns n rule: raise_note.induct)
  case (1 ns n)
  show ?case
  proof (cases "n < 127 \<and> n \<notin> set ns")
    case True
    show ?thesis
    proof (cases "k = n")
      case True
      with \<open>n < 127 \<and> n \<notin> set ns\<close> show ?thesis by simp
    next
      case False
      with "1.prems" have "n + 1 \<le> k" by simp
      moreover from True "1.prems" have "k < raise_note ns (n + 1)"
        by (simp add: raise_note_step)
      ultimately show ?thesis using "1.IH" True by simp
    qed
  next
    case False
    then have "raise_note ns n = n" by (rule raise_note_done)
    with "1.prems" show ?thesis by simp
  qed
qed

lemma lower_note_le: "lower_note ns n \<le> n"
proof (induction ns n rule: lower_note.induct)
  case (1 ns n)
  show ?case
  proof (cases "0 < n \<and> n \<notin> set ns")
    case True
    with 1 have "lower_note ns (n - 1) \<le> n - 1" by simp
    with True show ?thesis by (simp add: lower_note_step)
  next
    case False
    then have "lower_note ns n = n" by (rule lower_note_done)
    then show ?thesis by simp
  qed
qed

lemma lower_note_stop: "lower_note ns n \<in> set ns \<or> lower_note ns n \<le> 0"
proof (induction ns n rule: lower_note.induct)
  case (1 ns n)
  show ?case
  proof (cases "0 < n \<and> n \<notin> set ns")
    case True
    with 1 show ?thesis by (simp add: lower_note_step)
  next
    case False
    then have "lower_note ns n = n" by (rule lower_note_done)
    with False show ?thesis by auto
  qed
qed

lemma lower_note_skips: "k \<le> n \<Longrightarrow> lower_note ns n < k \<Longrightarrow> k \<notin> set ns"
proof (induction ns n rule: lower_note.induct)
  case (1 ns n)
  show ?case
  proof (cases "0 < n \<and> n \<notin> set ns")
    case True
    show ?thesis
    proof (cases "k = n")
      case True
      with \<open>0 < n \<and> n \<notin> set ns\<close> show ?thesis by simp
    next
      case False
      with "1.prems" have "k \<le> n - 1" by simp
      moreover from True "1.prems" have "lower_note ns (n - 1) < k"
        by (simp add: lower_note_step)
      ultimately show ?thesis using "1.IH" True by simp
    qed
  next
    case False
    then have "lower_note ns n = n" by (rule lower_note_done)
    with "1.prems" show ?thesis by simp
  qed
qed

text \<open>Raising reaches the least allowed pitch at or above the start, if there is one.\<close>

lemma raise_note_least:
  assumes "\<forall>a\<in>set ns. a \<le> 127" "a \<in> set ns" "p \<le> a"
  shows "raise_note ns p \<in> set ns" and "raise_note ns p \<le> a"
proof -
  show le: "raise_note ns p \<le> a"
  proof (rule ccontr)
    assume "\<not> raise_note ns p \<le> a"
    with assms(3) have "a \<notin> set ns" by (intro raise_note_skips [of p a ns]) simp_all
    with assms(2) show False by simp
  qed
  from raise_note_stop [of ns p] show "raise_note ns p \<in> set ns"
  proof
    assume "127 \<le> raise_note ns p"
    with le assms(1,2) have "raise_note ns p = a" by fastforce
    with assms(2) show ?thesis by simp
  qed
qed

lemma lower_note_greatest:
  assumes "\<forall>a\<in>set ns. 0 \<le> a" "a \<in> set ns" "a \<le> p"
  shows "lower_note ns p \<in> set ns" and "a \<le> lower_note ns p"
proof -
  show ge: "a \<le> lower_note ns p"
  proof (rule ccontr)
    assume "\<not> a \<le> lower_note ns p"
    with assms(3) have "a \<notin> set ns" by (intro lower_note_skips [of a p ns]) simp_all
    with assms(2) show False by simp
  qed
  from lower_note_stop [of ns p] show "lower_note ns p \<in> set ns"
  proof
    assume "lower_note ns p \<le> 0"
    with ge assms(1,2) have "lower_note ns p = a" by fastforce
    with assms(2) show ?thesis by simp
  qed
qed

text \<open>With no allowed pitch at or above the start, raising ends at 127 or above, outside
  the allowed pitches.\<close>

lemma raise_note_nothing_above:
  assumes "\<forall>a\<in>set ns. a < p"
  shows "127 \<le> raise_note ns p" and "\<forall>a\<in>set ns. a < raise_note ns p"
proof -
  from assms raise_note_ge [of p ns] show all: "\<forall>a\<in>set ns. a < raise_note ns p"
    by fastforce
  then have "raise_note ns p \<notin> set ns" by auto
  with raise_note_stop [of ns p] show "127 \<le> raise_note ns p" by simp
qed

lemma lower_note_nothing_below:
  assumes "\<forall>a\<in>set ns. p < a"
  shows "lower_note ns p \<le> 0" and "\<forall>a\<in>set ns. lower_note ns p < a"
proof -
  from assms lower_note_le [of ns p] show all: "\<forall>a\<in>set ns. lower_note ns p < a"
    by fastforce
  then have "lower_note ns p \<notin> set ns" by auto
  with lower_note_stop [of ns p] show "lower_note ns p \<le> 0" by simp
qed

lemma shift_up_pitch:
  assumes "ns \<noteq> []" "\<forall>a\<in>set ns. 0 \<le> a \<and> a \<le> 127"
  shows "lower_note ns (raise_note ns p) =
     (if \<exists>a\<in>set ns. p \<le> a then Min {a \<in> set ns. p \<le> a}
      else Max {a \<in> set ns. a < p})"
proof (cases "\<exists>a\<in>set ns. p \<le> a")
  case True
  then obtain a where a: "a \<in> set ns" "p \<le> a" by blast
  from assms(2) have hi: "\<forall>a\<in>set ns. a \<le> 127" by simp
  have mem: "raise_note ns p \<in> set ns" using hi a by (rule raise_note_least)
  have "Min {a \<in> set ns. p \<le> a} = raise_note ns p"
  proof (rule Min_eqI)
    show "finite {a \<in> set ns. p \<le> a}" by simp
    show "raise_note ns p \<in> {a \<in> set ns. p \<le> a}"
      using mem raise_note_ge [of p ns] by simp
    fix b assume "b \<in> {a \<in> set ns. p \<le> a}"
    then show "raise_note ns p \<le> b" using raise_note_least(2) [OF hi] by simp
  qed
  with True mem show ?thesis by (simp add: lower_note_member)
next
  case False
  then have below: "\<forall>a\<in>set ns. a < p" by auto
  from assms(1) obtain a where a: "a \<in> set ns" by (cases ns) auto
  from assms(2) have lo: "\<forall>a\<in>set ns. 0 \<le> a" by simp
  let ?r = "raise_note ns p"
  have above: "\<forall>a\<in>set ns. a < ?r" using below by (rule raise_note_nothing_above)
  have "Max {a \<in> set ns. a < p} = lower_note ns ?r"
  proof (rule Max_eqI)
    show "finite {a \<in> set ns. a < p}" by simp
    fix b assume "b \<in> {a \<in> set ns. a < p}"
    then have b: "b \<in> set ns" by simp
    with above have "b \<le> ?r" by fastforce
    with lo b show "b \<le> lower_note ns ?r" by (rule lower_note_greatest)
  next
    from above a have "a \<le> ?r" by fastforce
    with lo a have "lower_note ns ?r \<in> set ns" by (rule lower_note_greatest)
    with below show "lower_note ns ?r \<in> {a \<in> set ns. a < p}" by simp
  qed
  with False show ?thesis by simp
qed

lemma shift_down_pitch:
  assumes "ns \<noteq> []" "\<forall>a\<in>set ns. 0 \<le> a \<and> a \<le> 127"
  shows "raise_note ns (lower_note ns p) =
     (if \<exists>a\<in>set ns. a \<le> p then Max {a \<in> set ns. a \<le> p}
      else Min {a \<in> set ns. p < a})"
proof (cases "\<exists>a\<in>set ns. a \<le> p")
  case True
  then obtain a where a: "a \<in> set ns" "a \<le> p" by blast
  from assms(2) have lo: "\<forall>a\<in>set ns. 0 \<le> a" by simp
  have mem: "lower_note ns p \<in> set ns" using lo a by (rule lower_note_greatest)
  have "Max {a \<in> set ns. a \<le> p} = lower_note ns p"
  proof (rule Max_eqI)
    show "finite {a \<in> set ns. a \<le> p}" by simp
    show "lower_note ns p \<in> {a \<in> set ns. a \<le> p}"
      using mem lower_note_le [of ns p] by simp
    fix b assume "b \<in> {a \<in> set ns. a \<le> p}"
    then show "b \<le> lower_note ns p" using lower_note_greatest(2) [OF lo] by simp
  qed
  with True mem show ?thesis by (simp add: raise_note_member)
next
  case False
  then have above: "\<forall>a\<in>set ns. p < a" by auto
  from assms(1) obtain a where a: "a \<in> set ns" by (cases ns) auto
  from assms(2) have hi: "\<forall>a\<in>set ns. a \<le> 127" by simp
  let ?r = "lower_note ns p"
  have below: "\<forall>a\<in>set ns. ?r < a" using above by (rule lower_note_nothing_below)
  have "Min {a \<in> set ns. p < a} = raise_note ns ?r"
  proof (rule Min_eqI)
    show "finite {a \<in> set ns. p < a}" by simp
    fix b assume "b \<in> {a \<in> set ns. p < a}"
    then have b: "b \<in> set ns" by simp
    with below have "?r \<le> b" by fastforce
    with hi b show "raise_note ns ?r \<le> b" by (rule raise_note_least)
  next
    from below a have "?r \<le> a" by fastforce
    with hi a have "raise_note ns ?r \<in> set ns" by (rule raise_note_least)
    with above show "raise_note ns ?r \<in> {a \<in> set ns. p < a}" by simp
  qed
  with False show ?thesis by simp
qed

section \<open>The strategies on a track\<close>

lemma shift_up_message_note:
  "is_note_message m \<Longrightarrow>
     shift_up_message ns m = m\<lparr>msg_note := lower_note ns (raise_note ns (msg_note m))\<rparr>"
  by (simp add: shift_up_message_def is_note_message_def)

lemma shift_down_message_note:
  "is_note_message m \<Longrightarrow>
     shift_down_message ns m = m\<lparr>msg_note := raise_note ns (lower_note ns (msg_note m))\<rparr>"
  by (simp add: shift_down_message_def is_note_message_def)

lemma shift_up_message_other: "\<not> is_note_message m \<Longrightarrow> shift_up_message ns m = m"
  by (simp add: shift_up_message_def is_note_message_def)

lemma shift_down_message_other: "\<not> is_note_message m \<Longrightarrow> shift_down_message ns m = m"
  by (simp add: shift_down_message_def is_note_message_def)

lemma shift_up_message_type: "is_note_message (shift_up_message ns m) = is_note_message m"
  by (simp add: shift_up_message_def is_note_message_def)

lemma shift_down_message_type: "is_note_message (shift_down_message ns m) = is_note_message m"
  by (simp add: shift_down_message_def is_note_message_def)

lemma shift_up_allowed:
  assumes "ns \<noteq> []" "\<forall>a\<in>set ns. 0 \<le> a \<and> a \<le> 127"
  shows "lower_note ns (raise_note ns p) \<in> set ns"
proof (cases "\<exists>a\<in>set ns. p \<le> a")
  case True
  then have "{a \<in> set ns. p \<le> a} \<noteq> {}" by blast
  then have "Min {a \<in> set ns. p \<le> a} \<in> {a \<in> set ns. p \<le> a}" by (intro Min_in) simp_all
  with True show ?thesis by (simp add: shift_up_pitch [OF assms])
next
  case False
  with assms(1) have "{a \<in> set ns. a < p} \<noteq> {}" by (cases ns) auto
  then have "Max {a \<in> set ns. a < p} \<in> {a \<in> set ns. a < p}" by (intro Max_in) simp_all
  with False show ?thesis by (simp add: shift_up_pitch [OF assms])
qed

lemma shift_down_allowed:
  assumes "ns \<noteq> []" "\<forall>a\<in>set ns. 0 \<le> a \<and> a \<le> 127"
  shows "raise_note ns (lower_note ns p) \<in> set ns"
proof (cases "\<exists>a\<in>set ns. a \<le> p")
  case True
  then have "{a \<in> set ns. a \<le> p} \<noteq> {}" by blast
  then have "Max {a \<in> set ns. a \<le> p} \<in> {a \<in> set ns. a \<le> p}" by (intro Max_in) simp_all
  with True show ?thesis by (simp add: shift_down_pitch [OF assms])
next
  case False
  with assms(1) have "{a \<in> set ns. p < a} \<noteq> {}" by (cases ns) auto
  then have "Min {a \<in> set ns. p < a} \<in> {a \<in> set ns. p < a}" by (intro Min_in) simp_all
  with False show ?thesis by (simp add: shift_down_pitch [OF assms])
qed

subsection \<open>The built-in min\<close>

lemma foldl_min_member:
  "foldl (\<lambda>best y. if k y < k best then y else best) x rest \<in> set (x # rest)"
proof (induction rest arbitrary: x)
  case Nil
  then show ?case by simp
next
  case (Cons y rest)
  from Cons [of "if k y < k x then y else x"] show ?case by auto
qed

lemma py_min_key_member:
  "xs \<noteq> [] \<Longrightarrow> \<exists>r\<in>set xs. py_min_key k xs = Inr r"
  using foldl_min_member [of k]
  by (cases xs) (simp_all add: py_min_key_def)

lemma py_min_key_empty: "py_min_key k [] = Inl ValueError"
  by (simp add: py_min_key_def)

lemma first_minimum_snoc:
  fixes k :: "'a \<Rightarrow> int"
  assumes "first_minimum k zs i"
  shows "first_minimum k (zs @ [y]) (if k y < k (zs ! i) then length zs else i)"
proof (cases "k y < k (zs ! i)")
  case True
  have "k y \<le> k ((zs @ [y]) ! j)" if "j < length (zs @ [y])" for j
  proof (cases "j < length zs")
    case True
    with assms have "k (zs ! i) \<le> k (zs ! j)" by (simp add: first_minimum_def)
    with True \<open>k y < k (zs ! i)\<close> show ?thesis by (simp add: nth_append)
  next
    case False
    with that have "j = length zs" by simp
    then show ?thesis by simp
  qed
  moreover have "k y < k ((zs @ [y]) ! j)" if "j < length zs" for j
  proof -
    from assms that have "k (zs ! i) \<le> k (zs ! j)" by (simp add: first_minimum_def)
    with that True show ?thesis by (simp add: nth_append)
  qed
  ultimately show ?thesis using True by (simp add: first_minimum_def)
next
  case False
  from assms have i: "i < length zs" by (simp add: first_minimum_def)
  have "k (zs ! i) \<le> k ((zs @ [y]) ! j)" if "j < length (zs @ [y])" for j
  proof (cases "j < length zs")
    case True
    with assms show ?thesis by (simp add: first_minimum_def nth_append)
  next
    case False
    with that have "j = length zs" by simp
    with \<open>\<not> k y < k (zs ! i)\<close> show ?thesis by simp
  qed
  moreover have "k (zs ! i) < k ((zs @ [y]) ! j)" if "j < i" for j
    using assms that i by (simp add: first_minimum_def nth_append)
  ultimately show ?thesis using False i by (simp add: first_minimum_def nth_append)
qed

lemma foldl_first_minimum:
  fixes k :: "'a \<Rightarrow> int"
  shows "\<exists>i. first_minimum k (x # rest) i \<and>
     foldl (\<lambda>best y. if k y < k best then y else best) x rest = (x # rest) ! i"
proof (induction rest rule: rev_induct)
  case Nil
  have "first_minimum k [x] 0" by (simp add: first_minimum_def)
  then show ?case by auto
next
  case (snoc y rest)
  then obtain i where i: "first_minimum k (x # rest) i"
    and f: "foldl (\<lambda>best y. if k y < k best then y else best) x rest = (x # rest) ! i"
    by blast
  let ?i = "if k y < k ((x # rest) ! i) then length (x # rest) else i"
  from i have m: "first_minimum k ((x # rest) @ [y]) ?i" by (rule first_minimum_snoc)
  from i have "i < length (x # rest)" by (simp add: first_minimum_def)
  then have "((x # rest) @ [y]) ! ?i = (if k y < k ((x # rest) ! i) then y else (x # rest) ! i)"
    by (simp only: nth_append nth_append_length if_True split: if_splits) simp
  with f have "foldl (\<lambda>best y. if k y < k best then y else best) x (rest @ [y])
      = ((x # rest) @ [y]) ! ?i"
    by simp
  with m show ?case by (metis append_Cons)
qed

lemma py_min_key_first:
  fixes k :: "'a \<Rightarrow> int"
  assumes "xs \<noteq> []"
  shows "\<exists>i. first_minimum k xs i \<and> py_min_key k xs = Inr (xs ! i)"
proof -
  from assms obtain x rest where xs: "xs = x # rest" by (cases xs) auto
  from foldl_first_minimum [of k x rest] show ?thesis
    by (simp add: xs py_min_key_def)
qed

subsection \<open>An empty list of allowed pitches\<close>

lemma raise_note_empty: "raise_note [] n = max n 127"
proof (induction "[] :: int list" n rule: raise_note.induct)
  case (1 n)
  show ?case
  proof (cases "n < 127")
    case True
    with 1 show ?thesis by (simp add: raise_note_step)
  next
    case False
    then show ?thesis by (simp add: raise_note_top)
  qed
qed

lemma lower_note_empty: "lower_note [] n = min n 0"
proof (induction "[] :: int list" n rule: lower_note.induct)
  case (1 n)
  show ?case
  proof (cases "0 < n")
    case True
    with 1 show ?thesis by (simp add: lower_note_step)
  next
    case False
    then show ?thesis by (simp add: lower_note_bottom)
  qed
qed

lemma shift_nearest_empty:
  "shift_nearest t [] = (if \<exists>m\<in>set t. is_note_message m then Some ValueError else None, t)"
proof (induction t)
  case Nil
  then show ?case by simp
next
  case (Cons m t)
  then show ?case
    by (cases "is_note_message m") (simp_all add: is_note_message_def py_min_key_empty)
qed

lemma apply_strategy_shift_nearest_empty:
  "apply_strategy shift_nearest [] ts =
     (if \<exists>t\<in>set ts. \<exists>m\<in>set t. is_note_message m then Some ValueError else None, ts)"
proof (induction ts)
  case Nil
  then show ?case by simp
next
  case (Cons t ts)
  then show ?case
    by (cases "\<exists>m\<in>set t. is_note_message m") (simp_all add: shift_nearest_empty)
qed

lemma apply_strategy_total:
  assumes "\<And>t. fst (st t ns) = None"
  shows "apply_strategy st ns ts = (None, map (\<lambda>t. snd (st t ns)) ts)"
proof (induction ts)
  case Nil
  then show ?case by simp
next
  case (Cons t ts)
  from assms [of t] obtain t' where "st t ns = (None, t')" by (cases "st t ns") auto
  with Cons show ?case by simp
qed

section \<open>What the transforms leave alone\<close>

lemma keeps_all_but_note_time_refl: "keeps_all_but_note_time m m"
  by (simp add: keeps_all_but_note_time_def)

lemma keeps_velocity_time_refl: "keeps_velocity_time m m"
  by (simp add: keeps_velocity_time_def)

lemma tracks_unchanged:
  assumes "\<And>m. R m m"
  shows "list_all2 R t t" and "list_all2 (list_all2 R) ts ts"
proof -
  show *: "list_all2 R t t" for t using assms by (simp add: list_all2_same)
  then show "list_all2 (list_all2 R) ts ts" by (simp add: list_all2_same)
qed

lemma normalize_frame:
  "list_all2 (list_all2 keeps_pitch_time) ts (map (map (normalize_message v)) ts)"
proof -
  have "keeps_pitch_time m (normalize_message v m)" for m
    by (simp add: keeps_pitch_time_def normalize_message_def)
  then have "list_all2 keeps_pitch_time t (map (normalize_message v) t)" for t
    by (simp add: list_all2_map2 list_all2_same)
  then show ?thesis by (simp add: list_all2_map2 list_all2_same)
qed

lemma align_message_frame:
  assumes "align_message tick shift m = Inr (shift', m')"
  shows "keeps_all_but_note_time m m'"
proof (cases "is_note_message m")
  case False
  with assms show ?thesis by (simp add: align_message_other keeps_all_but_note_time_def)
next
  case True
  with assms have "tick \<noteq> 0" by (auto simp: align_message_zero_tick)
  with True assms show ?thesis
    by (auto simp: align_message_note keeps_all_but_note_time_def split: if_splits sum.splits)
qed

lemma align_messages_frame:
  "list_all2 keeps_all_but_note_time ms (snd (snd (align_messages tick shift ms)))"
proof (induction ms arbitrary: shift)
  case Nil
  then show ?case by simp
next
  case (Cons m ms)
  show ?case
  proof (cases "align_message tick shift m")
    case (Inl e)
    then show ?thesis
      using tracks_unchanged(1) [of keeps_all_but_note_time "m # ms"]
      by (simp add: keeps_all_but_note_time_refl)
  next
    case (Inr r)
    obtain s1 m1 where r: "r = (s1, m1)" by (cases r)
    obtain e s2 ms2 where rest: "align_messages tick s1 ms = (e, s2, ms2)"
      by (cases "align_messages tick s1 ms") auto
    from Cons [of s1] rest have "list_all2 keeps_all_but_note_time ms ms2" by simp
    moreover from Inr r have "keeps_all_but_note_time m m1" by (simp add: align_message_frame)
    ultimately show ?thesis using Inr r rest by simp
  qed
qed

lemma align_tracks_frame:
  "list_all2 (list_all2 keeps_all_but_note_time) ts (snd (align_tracks tick ts))"
proof (induction ts)
  case Nil
  then show ?case by simp
next
  case (Cons t ts)
  obtain e s' t' where r: "align_messages tick 0 t = (e, s', t')"
    by (cases "align_messages tick 0 t") auto
  with align_messages_frame [of t tick 0] have t': "list_all2 keeps_all_but_note_time t t'"
    by simp
  have same: "list_all2 (list_all2 keeps_all_but_note_time) ts ts"
    by (rule tracks_unchanged) (rule keeps_all_but_note_time_refl)
  obtain e2 ts2 where r2: "align_tracks tick ts = (e2, ts2)" by (cases "align_tracks tick ts")
  with Cons have "list_all2 (list_all2 keeps_all_but_note_time) ts ts2" by simp
  with r r2 t' same show ?case
    by (cases e) (simp_all add: align_track_def)
qed

lemma align_frame:
  "list_all2 (list_all2 keeps_all_but_note_time) (tracks s) (tracks (snd (align s p)))
   \<and> ticks_per_beat (snd (align s p)) = ticks_per_beat s"
proof -
  have same: "list_all2 (list_all2 keeps_all_but_note_time) (tracks s) (tracks s)"
    by (rule tracks_unchanged) (rule keeps_all_but_note_time_refl)
  obtain e ts' where r: "align_tracks (ticks_per_beat s div p) (tracks s) = (e, ts')"
    by (cases "align_tracks (ticks_per_beat s div p) (tracks s)")
  with align_tracks_frame [of "tracks s" "ticks_per_beat s div p"]
  have "list_all2 (list_all2 keeps_all_but_note_time) (tracks s) ts'" by simp
  with same r show ?thesis
    by (simp add: align_def py_floordiv_def)
qed

lemma shift_nearest_frame:
  "list_all2 keeps_velocity_time t (snd (shift_nearest t ns))"
proof (induction t)
  case Nil
  then show ?case by simp
next
  case (Cons m t)
  have same: "list_all2 keeps_velocity_time (m # t) (m # t)"
    by (rule tracks_unchanged) (rule keeps_velocity_time_refl)
  obtain e t' where r: "shift_nearest t ns = (e, t')" by (cases "shift_nearest t ns")
  with Cons have t': "list_all2 keeps_velocity_time t t'" by simp
  have k1: "keeps_velocity_time m m" by (rule keeps_velocity_time_refl)
  have k2: "keeps_velocity_time m (m\<lparr>msg_note := n\<rparr>)" for n
    by (simp add: keeps_velocity_time_def)
  show ?case
  proof (cases "py_min_key (\<lambda>x. \<bar>x - msg_note m\<bar>) ns")
    case (Inl e)
    with same r t' k1 show ?thesis by simp
  next
    case (Inr n)
    with r t' k1 k2 show ?thesis by simp
  qed
qed

lemma strategy_frame:
  assumes "strategy \<in> {shift_up, shift_down, shift_nearest}"
  shows "list_all2 keeps_velocity_time t (snd (strategy t ns))"
proof -
  from assms consider "strategy = shift_up" | "strategy = shift_down"
    | "strategy = shift_nearest" by blast
  then show ?thesis
  proof cases
    case 1
    have "keeps_velocity_time m (shift_up_message ns m)" for m
      by (simp add: keeps_velocity_time_def shift_up_message_def)
    with 1 show ?thesis by (simp add: shift_up_def list_all2_map2 list_all2_same)
  next
    case 2
    have "keeps_velocity_time m (shift_down_message ns m)" for m
      by (simp add: keeps_velocity_time_def shift_down_message_def)
    with 2 show ?thesis by (simp add: shift_down_def list_all2_map2 list_all2_same)
  next
    case 3
    then show ?thesis by (simp add: shift_nearest_frame)
  qed
qed

lemma apply_strategy_frame:
  assumes "\<And>t. list_all2 R t (snd (st t ns))" and "\<And>m. R m m"
  shows "list_all2 (list_all2 R) ts (snd (apply_strategy st ns ts))"
proof (induction ts)
  case Nil
  then show ?case by simp
next
  case (Cons t ts)
  obtain e t' where r: "st t ns = (e, t')" by (cases "st t ns")
  with assms(1) [of t] have t': "list_all2 R t t'" by simp
  have same: "list_all2 (list_all2 R) ts ts" using assms(2) by (rule tracks_unchanged)
  obtain e2 ts2 where r2: "apply_strategy st ns ts = (e2, ts2)"
    by (cases "apply_strategy st ns ts")
  with Cons have "list_all2 (list_all2 R) ts ts2" by simp
  with r r2 t' same show ?case by (cases e) simp_all
qed

lemma correct_pitch_frame:
  assumes "strategy \<in> {shift_up, shift_down, shift_nearest}"
  shows "list_all2 (list_all2 keeps_velocity_time) (tracks s)
           (tracks (snd (correct_pitch midi_notes s key strategy)))
         \<and> ticks_per_beat (snd (correct_pitch midi_notes s key strategy)) = ticks_per_beat s"
proof -
  define ns where "ns = collect_notes midi_notes key"
  obtain e ts' where r: "apply_strategy strategy ns (tracks s) = (e, ts')"
    by (cases "apply_strategy strategy ns (tracks s)")
  have "list_all2 (list_all2 keeps_velocity_time) (tracks s)
      (snd (apply_strategy strategy ns (tracks s)))"
    using strategy_frame [OF assms] keeps_velocity_time_refl by (rule apply_strategy_frame)
  with r show ?thesis by (simp add: correct_pitch_def ns_def [symmetric] Let_def)
qed

section \<open>Claims about the grid aligner\<close>

text \<open>
  Claim C1, as amended. For a file whose \<open>ticks_per_beat\<close> and the precision are powers
  of two with precision at most \<open>ticks_per_beat\<close>, whose \<open>ticks_per_beat\<close> is at most \<open>2^52\<close>
  and whose delta-times are non-negative and below \<open>2^52\<close> (so that every float quotient of
  the source is exact), \<open>align\<close> returns normally and every track is the result of the
  specified pass over that track alone, started with a carried shift of 0: each note-start
  or note-end event gets \<open>tick * round((delta_time + shift) / tick)\<close>, rounded half to
  even, and the shift becomes the original minus the quantized value. A note event on the
  grid met with a zero shift is left as it is, and the shift stays zero.
\<close>

theorem align_quantizes_with_carry:
  assumes "is_pow2 (ticks_per_beat s)" and "is_pow2 p" and "p \<le> ticks_per_beat s"
    and "ticks_per_beat s \<le> 2 ^ 52"
    and "\<forall>t\<in>set (tracks s). \<forall>m\<in>set t. 0 \<le> msg_time m \<and> msg_time m < 2 ^ 52"
  shows "align s p =
           (None, s\<lparr>tracks := map (quantize_track (ticks_per_beat s div p) 0) (tracks s)\<rparr>)
         \<and> (\<forall>m. is_note_message m \<and> 0 \<le> msg_time m \<and> msg_time m < 2 ^ 52
                 \<and> msg_time m mod (ticks_per_beat s div p) = 0
               \<longrightarrow> align_message (ticks_per_beat s div p) 0 m = Inr (0, m))"
proof
  have pw: "is_pow2 (ticks_per_beat s div p)" using assms(1-3) by (rule tick_pow2)
  have "ticks_per_beat s div p \<le> ticks_per_beat s" using assms(1-3) by (rule tick_pow2)
  with assms(4) have le: "ticks_per_beat s div p \<le> 2 ^ 52" by simp
  have "align_tracks (ticks_per_beat s div p) (tracks s) =
      (None, map (quantize_track (ticks_per_beat s div p) 0) (tracks s))"
    using pw le assms(5) by (rule align_tracks_quantize)
  then show "align s p =
      (None, s\<lparr>tracks := map (quantize_track (ticks_per_beat s div p) 0) (tracks s)\<rparr>)"
    using assms(1,2) by (simp add: align_accepted)
  show "\<forall>m. is_note_message m \<and> 0 \<le> msg_time m \<and> msg_time m < 2 ^ 52
                 \<and> msg_time m mod (ticks_per_beat s div p) = 0
               \<longrightarrow> align_message (ticks_per_beat s div p) 0 m = Inr (0, m)"
  proof (intro allI impI)
    fix m
    assume a: "is_note_message m \<and> 0 \<le> msg_time m \<and> msg_time m < 2 ^ 52
        \<and> msg_time m mod (ticks_per_beat s div p) = 0"
    then have "ticks_per_beat s div p dvd msg_time m" by (simp add: dvd_eq_mod_eq_0)
    moreover from a have "\<bar>msg_time m\<bar> < 2 ^ 53" by simp
    ultimately have "is_note_message m \<longrightarrow>
        ticks_per_beat s div p dvd msg_time m \<and> \<bar>msg_time m\<bar> < 2 ^ 53" by simp
    with pw le show "align_message (ticks_per_beat s div p) 0 m = Inr (0, m)"
      by (rule align_message_on_grid)
  qed
qed

theorem align_quantizes_with_carry_witness:
  "align \<lparr>ticks_per_beat = 4, tracks =
       [[\<lparr>msg_type = ''note_on'', msg_time = 3, msg_note = 60, msg_velocity = 64\<rparr>,
         \<lparr>msg_type = ''control_change'', msg_time = 5, msg_note = 0, msg_velocity = 0\<rparr>,
         \<lparr>msg_type = ''note_off'', msg_time = 2, msg_note = 60, msg_velocity = 64\<rparr>]]\<rparr> 2
   = (None, \<lparr>ticks_per_beat = 4, tracks =
       [[\<lparr>msg_type = ''note_on'', msg_time = 4, msg_note = 60, msg_velocity = 64\<rparr>,
         \<lparr>msg_type = ''control_change'', msg_time = 5, msg_note = 0, msg_velocity = 0\<rparr>,
         \<lparr>msg_type = ''note_off'', msg_time = 0, msg_note = 60, msg_velocity = 64\<rparr>]]\<rparr>)
   \<and> align_message 2 0 \<lparr>msg_type = ''note_on'', msg_time = 6, msg_note = 60, msg_velocity = 64\<rparr>
     = Inr (0, \<lparr>msg_type = ''note_on'', msg_time = 6, msg_note = 60, msg_velocity = 64\<rparr>)"
proof -
  have p4: "is_pow2 4" using is_pow2_power [of 2] by simp
  have p2: "is_pow2 2" using is_pow2_power [of 1] by simp
  have q: "quantize_track 2 0
       [\<lparr>msg_type = ''note_on'', msg_time = 3, msg_note = 60, msg_velocity = 64\<rparr>,
         \<lparr>msg_type = ''control_change'', msg_time = 5, msg_note = 0, msg_velocity = 0\<rparr>,
         \<lparr>msg_type = ''note_off'', msg_time = 2, msg_note = 60, msg_velocity = 64\<rparr>] =
       [\<lparr>msg_type = ''note_on'', msg_time = 4, msg_note = 60, msg_velocity = 64\<rparr>,
         \<lparr>msg_type = ''control_change'', msg_time = 5, msg_note = 0, msg_velocity = 0\<rparr>,
         \<lparr>msg_type = ''note_off'', msg_time = 0, msg_note = 60, msg_velocity = 64\<rparr>]"
    by code_simp
  have n: "is_note_message \<lparr>msg_type = ''note_on'', msg_time = 6, msg_note = 60, msg_velocity = 64\<rparr>"
    by (simp add: is_note_message_def)
  show ?thesis
    using align_quantizes_with_carry [of "\<lparr>ticks_per_beat = 4, tracks =
       [[\<lparr>msg_type = ''note_on'', msg_time = 3, msg_note = 60, msg_velocity = 64\<rparr>,
         \<lparr>msg_type = ''control_change'', msg_time = 5, msg_note = 0, msg_velocity = 0\<rparr>,
         \<lparr>msg_type = ''note_off'', msg_time = 2, msg_note = 60, msg_velocity = 64\<rparr>]]\<rparr>" 2]
      p4 p2 n
    by (simp add: q del: quantize_track.simps)
qed

text \<open>The claim as stated fails where the float quotient is not exact: with
  \<open>ticks_per_beat = 1\<close> and precision 1 the grid unit is 1, so the delta-time \<open>2^53 + 1\<close>
  is on the grid and \<open>tick * round(original / tick)\<close> is \<open>2^53 + 1\<close>; but the float nearest
  to \<open>2^53 + 1\<close> is \<open>2^53\<close>, so \<open>align\<close> writes \<open>2^53\<close> and carries the shift 1.\<close>

theorem align_quantizes_with_carry_counterexample:
  "is_pow2 1 \<and> (2 ^ 53 + 1) mod (1 div 1) = (0::int)
   \<and> align \<lparr>ticks_per_beat = 1, tracks =
       [[\<lparr>msg_type = ''note_on'', msg_time = 2 ^ 53 + 1, msg_note = 60, msg_velocity = 64\<rparr>]]\<rparr> 1
     = (None, \<lparr>ticks_per_beat = 1, tracks =
       [[\<lparr>msg_type = ''note_on'', msg_time = 2 ^ 53, msg_note = 60, msg_velocity = 64\<rparr>]]\<rparr>)
   \<and> align_message (1 div 1) 0 \<lparr>msg_type = ''note_on'', msg_time = 2 ^ 53 + 1, msg_note = 60, msg_velocity = 64\<rparr>
     = Inr (1, \<lparr>msg_type = ''note_on'', msg_time = 2 ^ 53, msg_note = 60, msg_velocity = 64\<rparr>)
   \<and> quantize_track (1 div 1) 0 [\<lparr>msg_type = ''note_on'', msg_time = 2 ^ 53 + 1, msg_note = 60, msg_velocity = 64\<rparr>]
     = [\<lparr>msg_type = ''note_on'', msg_time = 2 ^ 53 + 1, msg_note = 60, msg_velocity = 64\<rparr>]"
proof -
  have p1: "is_pow2 1" using is_pow2_power [of 0] by simp
  have g: "(2 ^ 53 + 1) mod (1 div 1) = (0::int)" by simp
  have a: "align \<lparr>ticks_per_beat = 1, tracks =
       [[\<lparr>msg_type = ''note_on'', msg_time = 2 ^ 53 + 1, msg_note = 60, msg_velocity = 64\<rparr>]]\<rparr> 1
     = (None, \<lparr>ticks_per_beat = 1, tracks =
       [[\<lparr>msg_type = ''note_on'', msg_time = 2 ^ 53, msg_note = 60, msg_velocity = 64\<rparr>]]\<rparr>)"
    by code_simp
  have b: "align_message (1 div 1) 0 \<lparr>msg_type = ''note_on'', msg_time = 2 ^ 53 + 1, msg_note = 60, msg_velocity = 64\<rparr>
     = Inr (1, \<lparr>msg_type = ''note_on'', msg_time = 2 ^ 53, msg_note = 60, msg_velocity = 64\<rparr>)"
    by code_simp
  have c: "quantize_track (1 div 1) 0 [\<lparr>msg_type = ''note_on'', msg_time = 2 ^ 53 + 1, msg_note = 60, msg_velocity = 64\<rparr>]
     = [\<lparr>msg_type = ''note_on'', msg_time = 2 ^ 53 + 1, msg_note = 60, msg_velocity = 64\<rparr>]"
    by code_simp
  from p1 g a b c show ?thesis by blast
qed

text \<open>
  Claim C2, as amended. For a file whose \<open>ticks_per_beat\<close> and the precision are powers
  of two with precision at most \<open>ticks_per_beat\<close>, whose \<open>ticks_per_beat\<close> is at most \<open>2^52\<close>
  and whose delta-times are below \<open>2^52\<close> in absolute value (so that every float quotient
  of the source is exact), \<open>align\<close> returns normally, every track of the result is the
  outcome of the inner loop on that track alone, entered with the shift reset to 0, and
  in every track the sum of the delta-times of the note-start and note-end events after
  \<open>align\<close> differs from the sum before by at most one grid unit \<open>tick\<close>.
\<close>

theorem align_bounded_drift:
  assumes "is_pow2 (ticks_per_beat s)" and "is_pow2 p" and "p \<le> ticks_per_beat s"
    and "ticks_per_beat s \<le> 2 ^ 52"
    and "\<forall>t\<in>set (tracks s). \<forall>m\<in>set t. \<bar>msg_time m\<bar> < 2 ^ 52"
  shows "align s p =
           (None, s\<lparr>tracks := map (\<lambda>t. snd (align_track (ticks_per_beat s div p) t)) (tracks s)\<rparr>)
         \<and> (\<forall>i<length (tracks s).
               \<bar>note_time_sum (tracks (snd (align s p)) ! i) - note_time_sum (tracks s ! i)\<bar>
                 \<le> ticks_per_beat s div p)"
proof -
  have pw: "is_pow2 (ticks_per_beat s div p)" using assms(1-3) by (rule tick_pow2)
  have "ticks_per_beat s div p \<le> ticks_per_beat s" using assms(1-3) by (rule tick_pow2)
  with assms(4) have le: "ticks_per_beat s div p \<le> 2 ^ 52" by simp
  have pos: "0 < ticks_per_beat s div p" using pw by (rule is_pow2_pos)
  have "align_tracks (ticks_per_beat s div p) (tracks s) =
      (None, map (\<lambda>t. snd (align_track (ticks_per_beat s div p) t)) (tracks s))"
    using pw le assms(5) by (rule align_tracks_each)
  then have eq: "align s p =
      (None, s\<lparr>tracks := map (\<lambda>t. snd (align_track (ticks_per_beat s div p) t)) (tracks s)\<rparr>)"
    using assms(1,2) by (simp add: align_accepted)
  have "\<bar>note_time_sum (tracks (snd (align s p)) ! i) - note_time_sum (tracks s ! i)\<bar>
      \<le> ticks_per_beat s div p" if "i < length (tracks s)" for i
  proof -
    from nth_mem [OF that] assms(5)
    have "\<forall>m\<in>set (tracks s ! i). \<bar>msg_time m\<bar> < 2 ^ 52" by blast
    with pw le have "2 * \<bar>note_time_sum (snd (align_track (ticks_per_beat s div p) (tracks s ! i)))
        - note_time_sum (tracks s ! i)\<bar> \<le> ticks_per_beat s div p"
      by (rule align_track_drift)
    with that pos show ?thesis by (simp add: eq)
  qed
  with eq show ?thesis by blast
qed

theorem align_bounded_drift_witness:
  "align \<lparr>ticks_per_beat = 4, tracks =
       [[\<lparr>msg_type = ''note_on'', msg_time = 3, msg_note = 60, msg_velocity = 64\<rparr>,
         \<lparr>msg_type = ''note_off'', msg_time = 2, msg_note = 60, msg_velocity = 64\<rparr>],
        [\<lparr>msg_type = ''note_on'', msg_time = 1, msg_note = 62, msg_velocity = 64\<rparr>]]\<rparr> 2
   = (None, \<lparr>ticks_per_beat = 4, tracks =
       [[\<lparr>msg_type = ''note_on'', msg_time = 4, msg_note = 60, msg_velocity = 64\<rparr>,
         \<lparr>msg_type = ''note_off'', msg_time = 0, msg_note = 60, msg_velocity = 64\<rparr>],
        [\<lparr>msg_type = ''note_on'', msg_time = 0, msg_note = 62, msg_velocity = 64\<rparr>]]\<rparr>)
   \<and> \<bar>note_time_sum
        [\<lparr>msg_type = ''note_on'', msg_time = 4, msg_note = 60, msg_velocity = 64\<rparr>,
         \<lparr>msg_type = ''note_off'', msg_time = 0, msg_note = 60, msg_velocity = 64\<rparr>]
      - note_time_sum
        [\<lparr>msg_type = ''note_on'', msg_time = 3, msg_note = 60, msg_velocity = 64\<rparr>,
         \<lparr>msg_type = ''note_off'', msg_time = 2, msg_note = 60, msg_velocity = 64\<rparr>]\<bar> \<le> 2"
proof -
  let ?s = "\<lparr>ticks_per_beat = 4, tracks =
       [[\<lparr>msg_type = ''note_on'', msg_time = 3, msg_note = 60, msg_velocity = 64\<rparr>,
         \<lparr>msg_type = ''note_off'', msg_time = 2, msg_note = 60, msg_velocity = 64\<rparr>],
        [\<lparr>msg_type = ''note_on'', msg_time = 1, msg_note = 62, msg_velocity = 64\<rparr>]]\<rparr>"
  have p4: "is_pow2 (ticks_per_beat ?s)" using is_pow2_power [of 2] by simp
  have p2: "is_pow2 2" using is_pow2_power [of 1] by simp
  have le: "2 \<le> ticks_per_beat ?s" by simp
  have up: "ticks_per_beat ?s \<le> 2 ^ 52" by simp
  have tm: "\<forall>t\<in>set (tracks ?s). \<forall>m\<in>set t. \<bar>msg_time m\<bar> < 2 ^ 52" by simp
  note inst = align_bounded_drift [OF p4 p2 le up tm]
  have t1: "snd (align_track 2
        [\<lparr>msg_type = ''note_on'', msg_time = 3, msg_note = 60, msg_velocity = 64\<rparr>,
         \<lparr>msg_type = ''note_off'', msg_time = 2, msg_note = 60, msg_velocity = 64\<rparr>])
      = [\<lparr>msg_type = ''note_on'', msg_time = 4, msg_note = 60, msg_velocity = 64\<rparr>,
         \<lparr>msg_type = ''note_off'', msg_time = 0, msg_note = 60, msg_velocity = 64\<rparr>]"
    by code_simp
  have t2: "snd (align_track 2
        [\<lparr>msg_type = ''note_on'', msg_time = 1, msg_note = 62, msg_velocity = 64\<rparr>])
      = [\<lparr>msg_type = ''note_on'', msg_time = 0, msg_note = 62, msg_velocity = 64\<rparr>]"
    by code_simp
  from inst have a: "align ?s 2 = (None, ?s\<lparr>tracks := map (\<lambda>t. snd (align_track 2 t)) (tracks ?s)\<rparr>)"
    by simp
  from inst have b: "\<forall>i<length (tracks ?s).
      \<bar>note_time_sum (tracks (snd (align ?s 2)) ! i) - note_time_sum (tracks ?s ! i)\<bar>
        \<le> ticks_per_beat ?s div 2"
    by (rule conjunct2)
  have "\<bar>note_time_sum (tracks (snd (align ?s 2)) ! 0) - note_time_sum (tracks ?s ! 0)\<bar> \<le> 2"
    using b [rule_format, of 0] by simp
  with a show ?thesis by (simp add: t1 t2)
qed

text \<open>The claim as stated fails where the float quotient is not exact: with
  \<open>ticks_per_beat = 1\<close> and precision 1 the grid unit is 1; the float nearest to
  \<open>2^60 + 100\<close> is \<open>2^60\<close>, so \<open>align\<close> rewrites the delta-time \<open>2^60 + 100\<close> to \<open>2^60\<close> and
  the sum of the track changes by 100.\<close>

theorem align_bounded_drift_counterexample:
  "is_pow2 1
   \<and> align \<lparr>ticks_per_beat = 1, tracks =
       [[\<lparr>msg_type = ''note_on'', msg_time = 2 ^ 60 + 100, msg_note = 60, msg_velocity = 64\<rparr>]]\<rparr> 1
     = (None, \<lparr>ticks_per_beat = 1, tracks =
       [[\<lparr>msg_type = ''note_on'', msg_time = 2 ^ 60, msg_note = 60, msg_velocity = 64\<rparr>]]\<rparr>)
   \<and> 1 div 1 < \<bar>note_time_sum [\<lparr>msg_type = ''note_on'', msg_time = 2 ^ 60, msg_note = 60, msg_velocity = 64\<rparr>]
        - note_time_sum [\<lparr>msg_type = ''note_on'', msg_time = 2 ^ 60 + 100, msg_note = 60, msg_velocity = 64\<rparr>]\<bar>"
proof -
  have p1: "is_pow2 1" using is_pow2_power [of 0] by simp
  have a: "align \<lparr>ticks_per_beat = 1, tracks =
       [[\<lparr>msg_type = ''note_on'', msg_time = 2 ^ 60 + 100, msg_note = 60, msg_velocity = 64\<rparr>]]\<rparr> 1
     = (None, \<lparr>ticks_per_beat = 1, tracks =
       [[\<lparr>msg_type = ''note_on'', msg_time = 2 ^ 60, msg_note = 60, msg_velocity = 64\<rparr>]]\<rparr>)"
    by code_simp
  have b: "1 div 1 < \<bar>note_time_sum [\<lparr>msg_type = ''note_on'', msg_time = 2 ^ 60, msg_note = 60, msg_velocity = 64\<rparr>]
        - note_time_sum [\<lparr>msg_type = ''note_on'', msg_time = 2 ^ 60 + 100, msg_note = 60, msg_velocity = 64\<rparr>]\<bar>"
    by (simp add: note_time_sum_def is_note_message_def)
  from p1 a b show ?thesis by blast
qed

text \<open>
  Claim C10, as amended. For a file whose \<open>ticks_per_beat\<close> and the precision are powers
  of two with precision at most \<open>ticks_per_beat\<close>, whose delta-times are non-negative (as
  the data model has them), and on which \<open>align\<close> returns normally (no float quotient
  overflows), a second \<open>align\<close> with the same precision returns the file the first one
  produced, unchanged, and after the first pass the delta-time of every note-start or
  note-end event is a multiple of \<open>tick\<close>.
\<close>

theorem align_idempotent:
  assumes "is_pow2 (ticks_per_beat s)" and "is_pow2 p" and "p \<le> ticks_per_beat s"
    and "\<forall>t\<in>set (tracks s). \<forall>m\<in>set t. 0 \<le> msg_time m"
    and "fst (align s p) = None"
  shows "align (snd (align s p)) p = (None, snd (align s p))
         \<and> (\<forall>t\<in>set (tracks (snd (align s p))). \<forall>m\<in>set t.
               is_note_message m \<longrightarrow> (ticks_per_beat s div p) dvd msg_time m)"
proof -
  define tick where "tick = ticks_per_beat s div p"
  have pw: "is_pow2 tick" unfolding tick_def using assms(1-3) by (rule tick_pow2)
  obtain e ts' where r: "align_tracks tick (tracks s) = (e, ts')"
    by (cases "align_tracks tick (tracks s)")
  with assms(1,2) have first: "align s p = (e, s\<lparr>tracks := ts'\<rparr>)"
    by (simp add: align_accepted tick_def)
  with assms(5) have e: "e = None" by simp
  from align_tracks_stable [OF pw assms(4) r [unfolded e]]
  have again: "align_tracks tick ts' = (None, ts')"
    and grid: "\<forall>t'\<in>set ts'. \<forall>m'\<in>set t'. is_note_message m' \<longrightarrow> tick dvd msg_time m'"
    by simp_all
  from again assms(1,2) have "align (s\<lparr>tracks := ts'\<rparr>) p = (None, s\<lparr>tracks := ts'\<rparr>)"
    by (simp add: align_accepted tick_def)
  with first e grid show ?thesis by (simp add: tick_def)
qed

theorem align_idempotent_witness:
  "snd (align \<lparr>ticks_per_beat = 4, tracks =
       [[\<lparr>msg_type = ''note_on'', msg_time = 3, msg_note = 60, msg_velocity = 64\<rparr>,
         \<lparr>msg_type = ''control_change'', msg_time = 5, msg_note = 0, msg_velocity = 0\<rparr>,
         \<lparr>msg_type = ''note_off'', msg_time = 2, msg_note = 60, msg_velocity = 64\<rparr>]]\<rparr> 2)
   = \<lparr>ticks_per_beat = 4, tracks =
       [[\<lparr>msg_type = ''note_on'', msg_time = 4, msg_note = 60, msg_velocity = 64\<rparr>,
         \<lparr>msg_type = ''control_change'', msg_time = 5, msg_note = 0, msg_velocity = 0\<rparr>,
         \<lparr>msg_type = ''note_off'', msg_time = 0, msg_note = 60, msg_velocity = 64\<rparr>]]\<rparr>
   \<and> align \<lparr>ticks_per_beat = 4, tracks =
       [[\<lparr>msg_type = ''note_on'', msg_time = 4, msg_note = 60, msg_velocity = 64\<rparr>,
         \<lparr>msg_type = ''control_change'', msg_time = 5, msg_note = 0, msg_velocity = 0\<rparr>,
         \<lparr>msg_type = ''note_off'', msg_time = 0, msg_note = 60, msg_velocity = 64\<rparr>]]\<rparr> 2
   = (None, \<lparr>ticks_per_beat = 4, tracks =
       [[\<lparr>msg_type = ''note_on'', msg_time = 4, msg_note = 60, msg_velocity = 64\<rparr>,
         \<lparr>msg_type = ''control_change'', msg_time = 5, msg_note = 0, msg_velocity = 0\<rparr>,
         \<lparr>msg_type = ''note_off'', msg_time = 0, msg_note = 60, msg_velocity = 64\<rparr>]]\<rparr>)"
proof -
  let ?s = "\<lparr>ticks_per_beat = 4, tracks =
       [[\<lparr>msg_type = ''note_on'', msg_time = 3, msg_note = 60, msg_velocity = 64\<rparr>,
         \<lparr>msg_type = ''control_change'', msg_time = 5, msg_note = 0, msg_velocity = 0\<rparr>,
         \<lparr>msg_type = ''note_off'', msg_time = 2, msg_note = 60, msg_velocity = 64\<rparr>]]\<rparr>"
  have p4: "is_pow2 (ticks_per_beat ?s)" using is_pow2_power [of 2] by simp
  have p2: "is_pow2 2" using is_pow2_power [of 1] by simp
  have le: "2 \<le> ticks_per_beat ?s" by simp
  have tm: "\<forall>t\<in>set (tracks ?s). \<forall>m\<in>set t. 0 \<le> msg_time m" by simp
  have first_ret: "align ?s 2 = (None, \<lparr>ticks_per_beat = 4, tracks =
       [[\<lparr>msg_type = ''note_on'', msg_time = 4, msg_note = 60, msg_velocity = 64\<rparr>,
         \<lparr>msg_type = ''control_change'', msg_time = 5, msg_note = 0, msg_velocity = 0\<rparr>,
         \<lparr>msg_type = ''note_off'', msg_time = 0, msg_note = 60, msg_velocity = 64\<rparr>]]\<rparr>)"
    by code_simp
  then have first: "snd (align ?s 2) = \<lparr>ticks_per_beat = 4, tracks =
       [[\<lparr>msg_type = ''note_on'', msg_time = 4, msg_note = 60, msg_velocity = 64\<rparr>,
         \<lparr>msg_type = ''control_change'', msg_time = 5, msg_note = 0, msg_velocity = 0\<rparr>,
         \<lparr>msg_type = ''note_off'', msg_time = 0, msg_note = 60, msg_velocity = 64\<rparr>]]\<rparr>"
    by simp
  from first_ret
  have ret: "fst (align ?s 2) = None" by simp
  from align_idempotent [OF p4 p2 le tm ret]
  have "align (snd (align ?s 2)) 2 = (None, snd (align ?s 2))" by (rule conjunct1)
  with first show ?thesis by simp
qed

text \<open>The claim as stated fails where the float quotient overflows: with
  \<open>ticks_per_beat = 2\<close> and precision 1 the grid unit is 2, and the quotient of the
  delta-time \<open>2^1025\<close> by 2 is too large for a float, so the first pass raises
  \<^verbatim>\<open>OverflowError\<close> at the first event and leaves the file as it was, with the delta-time
  1 of the second note event off the grid.\<close>

theorem align_idempotent_counterexample:
  "is_pow2 2 \<and> is_pow2 1
   \<and> align \<lparr>ticks_per_beat = 2, tracks =
       [[\<lparr>msg_type = ''note_on'', msg_time = 2 ^ 1025, msg_note = 60, msg_velocity = 64\<rparr>,
         \<lparr>msg_type = ''note_off'', msg_time = 1, msg_note = 60, msg_velocity = 64\<rparr>]]\<rparr> 1
     = (Some OverflowError, \<lparr>ticks_per_beat = 2, tracks =
       [[\<lparr>msg_type = ''note_on'', msg_time = 2 ^ 1025, msg_note = 60, msg_velocity = 64\<rparr>,
         \<lparr>msg_type = ''note_off'', msg_time = 1, msg_note = 60, msg_velocity = 64\<rparr>]]\<rparr>)
   \<and> \<not> (2 div 1) dvd msg_time \<lparr>msg_type = ''note_off'', msg_time = 1, msg_note = 60, msg_velocity = 64\<rparr>"
proof -
  have p2: "is_pow2 2" using is_pow2_power [of 1] by simp
  have p1: "is_pow2 1" using is_pow2_power [of 0] by simp
  have "py_truediv (2 ^ 1025) (2 ^ 1) = Inl OverflowError"
    by (rule py_truediv_overflow) simp
  then have m: "align_message 2 0 \<lparr>msg_type = ''note_on'', msg_time = 2 ^ 1025, msg_note = 60, msg_velocity = 64\<rparr>
      = Inl OverflowError"
    by (simp add: align_message_def py_mod_def)
  then have "align_tracks 2 [[\<lparr>msg_type = ''note_on'', msg_time = 2 ^ 1025, msg_note = 60, msg_velocity = 64\<rparr>,
         \<lparr>msg_type = ''note_off'', msg_time = 1, msg_note = 60, msg_velocity = 64\<rparr>]]
      = (Some OverflowError, [[\<lparr>msg_type = ''note_on'', msg_time = 2 ^ 1025, msg_note = 60, msg_velocity = 64\<rparr>,
         \<lparr>msg_type = ''note_off'', msg_time = 1, msg_note = 60, msg_velocity = 64\<rparr>]])"
    by (simp add: align_track_def)
  then have a: "align \<lparr>ticks_per_beat = 2, tracks =
       [[\<lparr>msg_type = ''note_on'', msg_time = 2 ^ 1025, msg_note = 60, msg_velocity = 64\<rparr>,
         \<lparr>msg_type = ''note_off'', msg_time = 1, msg_note = 60, msg_velocity = 64\<rparr>]]\<rparr> 1
     = (Some OverflowError, \<lparr>ticks_per_beat = 2, tracks =
       [[\<lparr>msg_type = ''note_on'', msg_time = 2 ^ 1025, msg_note = 60, msg_velocity = 64\<rparr>,
         \<lparr>msg_type = ''note_off'', msg_time = 1, msg_note = 60, msg_velocity = 64\<rparr>]]\<rparr>)"
    using p2 p1 by (simp add: align_accepted)
  have b: "\<not> (2 div 1) dvd msg_time \<lparr>msg_type = ''note_off'', msg_time = 1, msg_note = 60, msg_velocity = 64\<rparr>"
    by simp
  from p2 p1 a b show ?thesis by blast
qed

text \<open>
  Claim C4, as amended. \<open>align\<close> has no test for a precision above \<open>ticks_per_beat\<close>. For
  powers of two with the precision the larger, the grid unit is 0 and \<open>align\<close> never raises
  \<^verbatim>\<open>ValueError\<close>: the first note-start or note-end event it reaches raises
  \<^verbatim>\<open>ZeroDivisionError\<close> (from \<^verbatim>\<open>shift % tick\<close>) before any event is modified, and a file
  with no such event is returned unchanged.
\<close>

theorem align_degenerate_grid:
  assumes "is_pow2 (ticks_per_beat s)" and "is_pow2 p" and "ticks_per_beat s < p"
  shows "align s p =
    (if \<exists>t\<in>set (tracks s). \<exists>m\<in>set t. is_note_message m then Some ZeroDivisionError else None, s)"
proof -
  have "ticks_per_beat s div p = 0" using assms by (rule tick_zero)
  with assms(1,2) show ?thesis
    by (simp add: align_accepted align_tracks_zero_tick)
qed

theorem align_degenerate_grid_witness:
  "align \<lparr>ticks_per_beat = 1, tracks =
       [[\<lparr>msg_type = ''control_change'', msg_time = 7, msg_note = 0, msg_velocity = 0\<rparr>,
         \<lparr>msg_type = ''note_on'', msg_time = 3, msg_note = 60, msg_velocity = 64\<rparr>]]\<rparr> 2
   = (Some ZeroDivisionError, \<lparr>ticks_per_beat = 1, tracks =
       [[\<lparr>msg_type = ''control_change'', msg_time = 7, msg_note = 0, msg_velocity = 0\<rparr>,
         \<lparr>msg_type = ''note_on'', msg_time = 3, msg_note = 60, msg_velocity = 64\<rparr>]]\<rparr>)"
proof -
  let ?s = "\<lparr>ticks_per_beat = 1, tracks =
       [[\<lparr>msg_type = ''control_change'', msg_time = 7, msg_note = 0, msg_velocity = 0\<rparr>,
         \<lparr>msg_type = ''note_on'', msg_time = 3, msg_note = 60, msg_velocity = 64\<rparr>]]\<rparr>"
  have p1: "is_pow2 (ticks_per_beat ?s)" using is_pow2_power [of 0] by simp
  have p2: "is_pow2 2" using is_pow2_power [of 1] by simp
  have lt: "ticks_per_beat ?s < 2" by simp
  from align_degenerate_grid [OF p1 p2 lt] show ?thesis
    by (simp add: is_note_message_def)
qed

text \<open>The claim as stated fails: with \<open>ticks_per_beat = 1\<close> and precision 2, a file without
  note events is returned normally.\<close>

theorem align_degenerate_grid_counterexample:
  "is_pow2 1 \<and> is_pow2 2 \<and> (1::int) < 2 \<and>
   align \<lparr>ticks_per_beat = 1, tracks =
       [[\<lparr>msg_type = ''control_change'', msg_time = 7, msg_note = 0, msg_velocity = 0\<rparr>]]\<rparr> 2
   = (None, \<lparr>ticks_per_beat = 1, tracks =
       [[\<lparr>msg_type = ''control_change'', msg_time = 7, msg_note = 0, msg_velocity = 0\<rparr>]]\<rparr>)"
proof -
  have p1: "is_pow2 1" using is_pow2_power [of 0] by simp
  have p2: "is_pow2 2" using is_pow2_power [of 1] by simp
  have "align \<lparr>ticks_per_beat = 1, tracks =
       [[\<lparr>msg_type = ''control_change'', msg_time = 7, msg_note = 0, msg_velocity = 0\<rparr>]]\<rparr> 2
   = (None, \<lparr>ticks_per_beat = 1, tracks =
       [[\<lparr>msg_type = ''control_change'', msg_time = 7, msg_note = 0, msg_velocity = 0\<rparr>]]\<rparr>)"
    by code_simp
  with p1 p2 show ?thesis by simp
qed

text \<open>
  Claim C7. \<open>align\<close> is to fail whenever \<open>ticks_per_beat\<close> or the precision is not a power
  of two. The test of the source counts the digits \<^verbatim>\<open>1\<close> of \<^verbatim>\<open>bin(n)\<close>, which for a
  negative \<open>n\<close> are the digits of \<open>|n|\<close>: the precision \<open>-2\<close> is not a power of two, yet
  \<open>align\<close> accepts it, takes \<open>tick = 4 // -2 = -2\<close> and rewrites the delta-time 3 to
  \<open>-2 * round(3 / -2) = 4\<close>.
\<close>

theorem align_accepts_negative_precision:
  "\<not> is_pow2 (- 2) \<and>
   align \<lparr>ticks_per_beat = 4, tracks =
       [[\<lparr>msg_type = ''note_on'', msg_time = 3, msg_note = 60, msg_velocity = 64\<rparr>]]\<rparr> (- 2)
   = (None, \<lparr>ticks_per_beat = 4, tracks =
       [[\<lparr>msg_type = ''note_on'', msg_time = 4, msg_note = 60, msg_velocity = 64\<rparr>]]\<rparr>)"
proof -
  have "\<not> is_pow2 (- 2)" using is_pow2_pos [of "- 2"] by auto
  moreover have "align \<lparr>ticks_per_beat = 4, tracks =
       [[\<lparr>msg_type = ''note_on'', msg_time = 3, msg_note = 60, msg_velocity = 64\<rparr>]]\<rparr> (- 2)
   = (None, \<lparr>ticks_per_beat = 4, tracks =
       [[\<lparr>msg_type = ''note_on'', msg_time = 4, msg_note = 60, msg_velocity = 64\<rparr>]]\<rparr>)"
    by code_simp
  ultimately show ?thesis by simp
qed

section \<open>Claims about the pitch corrector\<close>

text \<open>
  Claim C6. For a non-empty list of allowed pitches within 0-127, \<open>shift_up\<close> returns
  normally and sets the pitch of every note-start and note-end event of the track to the
  smallest allowed value at or above the original pitch, and to the largest allowed value
  below it only when no allowed value is at or above; \<open>shift_down\<close> returns normally and
  sets it to the largest allowed value at or below the original pitch, and to the smallest
  allowed value above it only when no allowed value is at or below. Nothing else of the
  track changes. (The original pitch may be any integer.)
\<close>

theorem shift_up_down_pitch:
  assumes "ns \<noteq> []" and "\<forall>a\<in>set ns. 0 \<le> a \<and> a \<le> 127"
  shows "shift_up t ns =
           (None, map (\<lambda>m. if is_note_message m
                  then m\<lparr>msg_note :=
                         if \<exists>a\<in>set ns. msg_note m \<le> a then Min {a \<in> set ns. msg_note m \<le> a}
                         else Max {a \<in> set ns. a < msg_note m}\<rparr>
                  else m) t)
         \<and> shift_down t ns =
           (None, map (\<lambda>m. if is_note_message m
                  then m\<lparr>msg_note :=
                         if \<exists>a\<in>set ns. a \<le> msg_note m then Max {a \<in> set ns. a \<le> msg_note m}
                         else Min {a \<in> set ns. msg_note m < a}\<rparr>
                  else m) t)"
proof -
  have up: "shift_up_message ns =
      (\<lambda>m. if is_note_message m
       then m\<lparr>msg_note :=
              if \<exists>a\<in>set ns. msg_note m \<le> a then Min {a \<in> set ns. msg_note m \<le> a}
              else Max {a \<in> set ns. a < msg_note m}\<rparr>
       else m)"
  proof (rule ext)
    fix m
    show "shift_up_message ns m =
      (if is_note_message m
       then m\<lparr>msg_note :=
              if \<exists>a\<in>set ns. msg_note m \<le> a then Min {a \<in> set ns. msg_note m \<le> a}
              else Max {a \<in> set ns. a < msg_note m}\<rparr>
       else m)"
      using shift_up_pitch [OF assms, of "msg_note m"]
      by (cases "is_note_message m") (simp_all add: shift_up_message_note shift_up_message_other)
  qed
  have down: "shift_down_message ns =
      (\<lambda>m. if is_note_message m
       then m\<lparr>msg_note :=
              if \<exists>a\<in>set ns. a \<le> msg_note m then Max {a \<in> set ns. a \<le> msg_note m}
              else Min {a \<in> set ns. msg_note m < a}\<rparr>
       else m)"
  proof (rule ext)
    fix m
    show "shift_down_message ns m =
      (if is_note_message m
       then m\<lparr>msg_note :=
              if \<exists>a\<in>set ns. a \<le> msg_note m then Max {a \<in> set ns. a \<le> msg_note m}
              else Min {a \<in> set ns. msg_note m < a}\<rparr>
       else m)"
      using shift_down_pitch [OF assms, of "msg_note m"]
      by (cases "is_note_message m") (simp_all add: shift_down_message_note shift_down_message_other)
  qed
  show ?thesis
    unfolding shift_up_def shift_down_def by (simp only: up down)
qed

theorem shift_up_down_pitch_witness:
  "shift_up [\<lparr>msg_type = ''note_on'', msg_time = 0, msg_note = 2, msg_velocity = 64\<rparr>,
      \<lparr>msg_type = ''control_change'', msg_time = 5, msg_note = 0, msg_velocity = 0\<rparr>] [0, 4, 7]
   = (None, [\<lparr>msg_type = ''note_on'', msg_time = 0, msg_note = 4, msg_velocity = 64\<rparr>,
      \<lparr>msg_type = ''control_change'', msg_time = 5, msg_note = 0, msg_velocity = 0\<rparr>])
   \<and> shift_down [\<lparr>msg_type = ''note_on'', msg_time = 0, msg_note = 2, msg_velocity = 64\<rparr>,
      \<lparr>msg_type = ''control_change'', msg_time = 5, msg_note = 0, msg_velocity = 0\<rparr>] [0, 4, 7]
   = (None, [\<lparr>msg_type = ''note_on'', msg_time = 0, msg_note = 0, msg_velocity = 64\<rparr>,
      \<lparr>msg_type = ''control_change'', msg_time = 5, msg_note = 0, msg_velocity = 0\<rparr>])"
proof -
  have ne: "[0, 4, 7] \<noteq> ([] :: int list)" by simp
  have range: "\<forall>a\<in>set [0, 4, 7]. (0::int) \<le> a \<and> a \<le> 127" by simp
  have "{a \<in> set [0, 4, 7]. (2::int) \<le> a} = {4, 7}" by auto
  then have up: "Min {a \<in> set [0, 4, 7]. (2::int) \<le> a} = 4" by simp
  have "{a \<in> set [0, 4, 7]. a \<le> (2::int)} = {0}" by auto
  then have down: "Max {a \<in> set [0, 4, 7]. a \<le> (2::int)} = 0" by simp
  from shift_up_down_pitch [OF ne range, of "[\<lparr>msg_type = ''note_on'', msg_time = 0, msg_note = 2, msg_velocity = 64\<rparr>,
      \<lparr>msg_type = ''control_change'', msg_time = 5, msg_note = 0, msg_velocity = 0\<rparr>]"] up down
  show ?thesis by (simp add: is_note_message_def)
qed

text \<open>
  Claim C3. For a non-empty collection of allowed pitches, all within 0-127, and each of
  the strategies shift-up, shift-down and shift-nearest, \<open>correct_pitch\<close> returns normally
  and every note-start or note-end event of the result has a pitch from the collection.
\<close>

theorem correct_pitch_allowed:
  assumes "collect_notes midi_notes key \<noteq> []"
    and "\<forall>a\<in>set (collect_notes midi_notes key). 0 \<le> a \<and> a \<le> 127"
    and "strategy \<in> {shift_up, shift_down, shift_nearest}"
  shows "fst (correct_pitch midi_notes s key strategy) = None
         \<and> (\<forall>t\<in>set (tracks (snd (correct_pitch midi_notes s key strategy))). \<forall>m\<in>set t.
               is_note_message m \<longrightarrow> msg_note m \<in> set (collect_notes midi_notes key))"
proof -
  define ns where "ns = collect_notes midi_notes key"
  have ne: "ns \<noteq> []" and range: "\<forall>a\<in>set ns. 0 \<le> a \<and> a \<le> 127"
    using assms(1,2) by (simp_all add: ns_def)
  have nearest: "\<exists>t'. shift_nearest t ns = (None, t') \<and>
      (\<forall>m\<in>set t'. is_note_message m \<longrightarrow> msg_note m \<in> set ns)" for t
  proof (induction t)
    case Nil
    then show ?case by simp
  next
    case (Cons m t)
    then obtain t' where t': "shift_nearest t ns = (None, t')"
      and all: "\<forall>m\<in>set t'. is_note_message m \<longrightarrow> msg_note m \<in> set ns" by blast
    show ?case
    proof (cases "is_note_message m")
      case True
      from py_min_key_member [OF ne, of "\<lambda>x. \<bar>x - msg_note m\<bar>"]
      obtain r where "r \<in> set ns" "py_min_key (\<lambda>x. \<bar>x - msg_note m\<bar>) ns = Inr r" by blast
      with True t' all show ?thesis by (simp add: is_note_message_def)
    next
      case False
      with t' all show ?thesis by (simp add: is_note_message_def)
    qed
  qed
  have each: "fst (strategy t ns) = None \<and>
      (\<forall>m\<in>set (snd (strategy t ns)). is_note_message m \<longrightarrow> msg_note m \<in> set ns)" for t
  proof -
    from assms(3) consider "strategy = shift_up" | "strategy = shift_down"
      | "strategy = shift_nearest" by blast
    then show ?thesis
    proof cases
      case 1
      then show ?thesis
        using shift_up_allowed [OF ne range]
        by (auto simp: shift_up_def shift_up_message_type shift_up_message_note)
    next
      case 2
      then show ?thesis
        using shift_down_allowed [OF ne range]
        by (auto simp: shift_down_def shift_down_message_type shift_down_message_note)
    next
      case 3
      with nearest [of t] show ?thesis by auto
    qed
  qed
  then have "apply_strategy strategy ns ts = (None, map (\<lambda>t. snd (strategy t ns)) ts)" for ts
    by (intro apply_strategy_total) simp
  then have "correct_pitch midi_notes s key strategy =
      (None, s\<lparr>tracks := map (\<lambda>t. snd (strategy t ns)) (tracks s)\<rparr>)"
    by (simp add: correct_pitch_def ns_def Let_def)
  with each show ?thesis by (auto simp: ns_def)
qed

theorem correct_pitch_allowed_witness:
  "collect_notes (\<lambda>n. if n = ''C'' then [0, 4] else [7]) [''C'', ''G''] = [0, 4, 7]
   \<and> fst (correct_pitch (\<lambda>n. if n = ''C'' then [0, 4] else [7]) \<lparr>ticks_per_beat = 4, tracks =
       [[\<lparr>msg_type = ''note_on'', msg_time = 0, msg_note = 2, msg_velocity = 64\<rparr>,
         \<lparr>msg_type = ''control_change'', msg_time = 5, msg_note = 0, msg_velocity = 0\<rparr>,
         \<lparr>msg_type = ''note_off'', msg_time = 3, msg_note = 126, msg_velocity = 64\<rparr>]]\<rparr> [''C'', ''G''] shift_up) = None
   \<and> correct_pitch (\<lambda>n. if n = ''C'' then [0, 4] else [7]) \<lparr>ticks_per_beat = 4, tracks =
       [[\<lparr>msg_type = ''note_on'', msg_time = 0, msg_note = 2, msg_velocity = 64\<rparr>,
         \<lparr>msg_type = ''control_change'', msg_time = 5, msg_note = 0, msg_velocity = 0\<rparr>,
         \<lparr>msg_type = ''note_off'', msg_time = 3, msg_note = 126, msg_velocity = 64\<rparr>]]\<rparr> [''C'', ''G''] shift_up
     = (None, \<lparr>ticks_per_beat = 4, tracks =
       [[\<lparr>msg_type = ''note_on'', msg_time = 0, msg_note = 4, msg_velocity = 64\<rparr>,
         \<lparr>msg_type = ''control_change'', msg_time = 5, msg_note = 0, msg_velocity = 0\<rparr>,
         \<lparr>msg_type = ''note_off'', msg_time = 3, msg_note = 7, msg_velocity = 64\<rparr>]]\<rparr>)"
proof -
  have ns: "collect_notes (\<lambda>n. if n = ''C'' then [0, 4] else [7]) [''C'', ''G''] = [0, 4, 7]"
    by code_simp
  have ne: "collect_notes (\<lambda>n. if n = ''C'' then [0, 4] else [7]) [''C'', ''G''] \<noteq> []" by (simp add: ns)
  have range: "\<forall>a\<in>set (collect_notes (\<lambda>n. if n = ''C'' then [0, 4] else [7]) [''C'', ''G'']). 0 \<le> a \<and> a \<le> 127"
    by (simp add: ns)
  have st: "shift_up \<in> {shift_up, shift_down, shift_nearest}" by simp
  have ev: "correct_pitch (\<lambda>n. if n = ''C'' then [0, 4] else [7]) \<lparr>ticks_per_beat = 4, tracks =
       [[\<lparr>msg_type = ''note_on'', msg_time = 0, msg_note = 2, msg_velocity = 64\<rparr>,
         \<lparr>msg_type = ''control_change'', msg_time = 5, msg_note = 0, msg_velocity = 0\<rparr>,
         \<lparr>msg_type = ''note_off'', msg_time = 3, msg_note = 126, msg_velocity = 64\<rparr>]]\<rparr> [''C'', ''G''] shift_up
     = (None, \<lparr>ticks_per_beat = 4, tracks =
       [[\<lparr>msg_type = ''note_on'', msg_time = 0, msg_note = 4, msg_velocity = 64\<rparr>,
         \<lparr>msg_type = ''control_change'', msg_time = 5, msg_note = 0, msg_velocity = 0\<rparr>,
         \<lparr>msg_type = ''note_off'', msg_time = 3, msg_note = 7, msg_velocity = 64\<rparr>]]\<rparr>)"
    by code_simp
  from correct_pitch_allowed [OF ne range st, of "\<lparr>ticks_per_beat = 4, tracks =
       [[\<lparr>msg_type = ''note_on'', msg_time = 0, msg_note = 2, msg_velocity = 64\<rparr>,
         \<lparr>msg_type = ''control_change'', msg_time = 5, msg_note = 0, msg_velocity = 0\<rparr>,
         \<lparr>msg_type = ''note_off'', msg_time = 3, msg_note = 126, msg_velocity = 64\<rparr>]]\<rparr>"]
  have "fst (correct_pitch (\<lambda>n. if n = ''C'' then [0, 4] else [7]) \<lparr>ticks_per_beat = 4, tracks =
       [[\<lparr>msg_type = ''note_on'', msg_time = 0, msg_note = 2, msg_velocity = 64\<rparr>,
         \<lparr>msg_type = ''control_change'', msg_time = 5, msg_note = 0, msg_velocity = 0\<rparr>,
         \<lparr>msg_type = ''note_off'', msg_time = 3, msg_note = 126, msg_velocity = 64\<rparr>]]\<rparr> [''C'', ''G''] shift_up) = None"
    by (rule conjunct1)
  with ns ev show ?thesis by simp
qed

text \<open>
  Claim C5, as amended. The source has no test for an empty collection of allowed
  pitches. With an empty collection, \<open>correct_pitch\<close> with shift-up raises nothing and sets
  the pitch of every note-start and note-end event to 0, with shift-down it raises nothing
  and sets it to 127, and with shift-nearest it raises \<^verbatim>\<open>ValueError\<close> (from \<^verbatim>\<open>min\<close> of an
  empty sequence) at the first note-start or note-end event, before any event is changed,
  and returns the file unchanged when there is no such event.
\<close>

theorem correct_pitch_empty_key:
  assumes "collect_notes midi_notes key = []"
  shows "correct_pitch midi_notes s key shift_up =
           (None, s\<lparr>tracks :=
              map (map (\<lambda>m. if is_note_message m then m\<lparr>msg_note := 0\<rparr> else m)) (tracks s)\<rparr>)
         \<and> correct_pitch midi_notes s key shift_down =
           (None, s\<lparr>tracks :=
              map (map (\<lambda>m. if is_note_message m then m\<lparr>msg_note := 127\<rparr> else m)) (tracks s)\<rparr>)
         \<and> correct_pitch midi_notes s key shift_nearest =
           (if \<exists>t\<in>set (tracks s). \<exists>m\<in>set t. is_note_message m then Some ValueError else None, s)"
proof -
  have up: "shift_up_message [] = (\<lambda>m. if is_note_message m then m\<lparr>msg_note := 0\<rparr> else m)"
    by (rule ext)
      (simp add: shift_up_message_def is_note_message_def raise_note_empty lower_note_empty)
  have down: "shift_down_message [] = (\<lambda>m. if is_note_message m then m\<lparr>msg_note := 127\<rparr> else m)"
    by (rule ext)
      (simp add: shift_down_message_def is_note_message_def raise_note_empty lower_note_empty)
  have "apply_strategy shift_up [] ts = (None, map (\<lambda>t. snd (shift_up t [])) ts)" for ts
    by (rule apply_strategy_total) (simp add: shift_up_def)
  then have 1: "correct_pitch midi_notes s key shift_up =
      (None, s\<lparr>tracks :=
         map (map (\<lambda>m. if is_note_message m then m\<lparr>msg_note := 0\<rparr> else m)) (tracks s)\<rparr>)"
    using assms by (simp add: correct_pitch_def shift_up_def up)
  have "apply_strategy shift_down [] ts = (None, map (\<lambda>t. snd (shift_down t [])) ts)" for ts
    by (rule apply_strategy_total) (simp add: shift_down_def)
  then have 2: "correct_pitch midi_notes s key shift_down =
      (None, s\<lparr>tracks :=
         map (map (\<lambda>m. if is_note_message m then m\<lparr>msg_note := 127\<rparr> else m)) (tracks s)\<rparr>)"
    using assms by (simp add: correct_pitch_def shift_down_def down)
  have 3: "correct_pitch midi_notes s key shift_nearest =
      (if \<exists>t\<in>set (tracks s). \<exists>m\<in>set t. is_note_message m then Some ValueError else None, s)"
    using assms by (simp add: correct_pitch_def apply_strategy_shift_nearest_empty)
  from 1 2 3 show ?thesis by blast
qed

theorem correct_pitch_empty_key_witness:
  "correct_pitch (\<lambda>n. []) \<lparr>ticks_per_beat = 4, tracks =
       [[\<lparr>msg_type = ''note_on'', msg_time = 0, msg_note = 60, msg_velocity = 64\<rparr>,
         \<lparr>msg_type = ''control_change'', msg_time = 5, msg_note = 9, msg_velocity = 9\<rparr>]]\<rparr> [''C''] shift_down
     = (None, \<lparr>ticks_per_beat = 4, tracks =
       [[\<lparr>msg_type = ''note_on'', msg_time = 0, msg_note = 127, msg_velocity = 64\<rparr>,
         \<lparr>msg_type = ''control_change'', msg_time = 5, msg_note = 9, msg_velocity = 9\<rparr>]]\<rparr>)
   \<and> correct_pitch (\<lambda>n. []) \<lparr>ticks_per_beat = 4, tracks =
       [[\<lparr>msg_type = ''note_on'', msg_time = 0, msg_note = 60, msg_velocity = 64\<rparr>,
         \<lparr>msg_type = ''control_change'', msg_time = 5, msg_note = 9, msg_velocity = 9\<rparr>]]\<rparr> [''C''] shift_nearest
     = (Some ValueError, \<lparr>ticks_per_beat = 4, tracks =
       [[\<lparr>msg_type = ''note_on'', msg_time = 0, msg_note = 60, msg_velocity = 64\<rparr>,
         \<lparr>msg_type = ''control_change'', msg_time = 5, msg_note = 9, msg_velocity = 9\<rparr>]]\<rparr>)"
proof -
  have e: "collect_notes (\<lambda>n. []) [''C''] = []" by (simp add: collect_notes_def)
  from correct_pitch_empty_key [OF e, of "\<lparr>ticks_per_beat = 4, tracks =
       [[\<lparr>msg_type = ''note_on'', msg_time = 0, msg_note = 60, msg_velocity = 64\<rparr>,
         \<lparr>msg_type = ''control_change'', msg_time = 5, msg_note = 9, msg_velocity = 9\<rparr>]]\<rparr>"]
  show ?thesis by (simp add: is_note_message_def)
qed

text \<open>The claim as stated fails: with no allowed pitch, shift-up raises nothing and moves
  the pitch 60 to 0.\<close>

theorem correct_pitch_empty_key_counterexample:
  "collect_notes (\<lambda>n. []) [''C''] = []
   \<and> correct_pitch (\<lambda>n. []) \<lparr>ticks_per_beat = 4, tracks =
       [[\<lparr>msg_type = ''note_on'', msg_time = 0, msg_note = 60, msg_velocity = 64\<rparr>,
         \<lparr>msg_type = ''control_change'', msg_time = 5, msg_note = 9, msg_velocity = 9\<rparr>]]\<rparr> [''C''] shift_up
     = (None, \<lparr>ticks_per_beat = 4, tracks =
       [[\<lparr>msg_type = ''note_on'', msg_time = 0, msg_note = 0, msg_velocity = 64\<rparr>,
         \<lparr>msg_type = ''control_change'', msg_time = 5, msg_note = 9, msg_velocity = 9\<rparr>]]\<rparr>)"
proof -
  have "collect_notes (\<lambda>n. []) [''C''] = []" by (simp add: collect_notes_def)
  moreover have "correct_pitch (\<lambda>n. []) \<lparr>ticks_per_beat = 4, tracks =
       [[\<lparr>msg_type = ''note_on'', msg_time = 0, msg_note = 60, msg_velocity = 64\<rparr>,
         \<lparr>msg_type = ''control_change'', msg_time = 5, msg_note = 9, msg_velocity = 9\<rparr>]]\<rparr> [''C''] shift_up
     = (None, \<lparr>ticks_per_beat = 4, tracks =
       [[\<lparr>msg_type = ''note_on'', msg_time = 0, msg_note = 0, msg_velocity = 64\<rparr>,
         \<lparr>msg_type = ''control_change'', msg_time = 5, msg_note = 9, msg_velocity = 9\<rparr>]]\<rparr>)"
    by code_simp
  ultimately show ?thesis by simp
qed

text \<open>
  Claim C8. For a non-empty collection of allowed pitches, shift-nearest returns normally
  and sets the pitch of every note-start and note-end event to the element of the
  collection at the least absolute distance from the original pitch, the first such
  element in the collection's order when several are equally near; other events are
  left as they are.
\<close>

theorem shift_nearest_first_nearest:
  assumes "ns \<noteq> []"
  shows "\<exists>t'. shift_nearest t ns = (None, t') \<and>
     list_all2 (\<lambda>m m'.
        if is_note_message m
        then \<exists>i. first_minimum (\<lambda>x. \<bar>x - msg_note m\<bar>) ns i \<and> m' = m\<lparr>msg_note := ns ! i\<rparr>
        else m' = m) t t'"
proof (induction t)
  case Nil
  then show ?case by simp
next
  case (Cons m t)
  then obtain t' where t': "shift_nearest t ns = (None, t')"
    and rel: "list_all2 (\<lambda>m m'.
        if is_note_message m
        then \<exists>i. first_minimum (\<lambda>x. \<bar>x - msg_note m\<bar>) ns i \<and> m' = m\<lparr>msg_note := ns ! i\<rparr>
        else m' = m) t t'"
    by blast
  show ?case
  proof (cases "is_note_message m")
    case True
    from py_min_key_first [OF assms, of "\<lambda>x. \<bar>x - msg_note m\<bar>"]
    obtain i where i: "first_minimum (\<lambda>x. \<bar>x - msg_note m\<bar>) ns i"
      and r: "py_min_key (\<lambda>x. \<bar>x - msg_note m\<bar>) ns = Inr (ns ! i)" by blast
    from True have ty: "msg_type m \<in> {''note_on'', ''note_off''}"
      by (simp add: is_note_message_def)
    have "shift_nearest (m # t) ns = (None, m\<lparr>msg_note := ns ! i\<rparr> # t')"
      using ty r t' by simp
    moreover have "\<exists>j. first_minimum (\<lambda>x. \<bar>x - msg_note m\<bar>) ns j \<and>
        m\<lparr>msg_note := ns ! i\<rparr> = m\<lparr>msg_note := ns ! j\<rparr>"
      using i by blast
    ultimately show ?thesis using True rel by simp
  next
    case False
    then have "msg_type m \<notin> {''note_on'', ''note_off''}" by (simp add: is_note_message_def)
    then have "shift_nearest (m # t) ns = (None, m # t')" using t' by simp
    with False rel show ?thesis by simp
  qed
qed

theorem shift_nearest_first_nearest_witness:
  "(\<exists>t'. shift_nearest [\<lparr>msg_type = ''note_on'', msg_time = 0, msg_note = 2, msg_velocity = 64\<rparr>] [4, 0, 7] = (None, t') \<and>
     list_all2 (\<lambda>m m'.
        if is_note_message m
        then \<exists>i. first_minimum (\<lambda>x. \<bar>x - msg_note m\<bar>) [4, 0, 7] i \<and> m' = m\<lparr>msg_note := [4, 0, 7] ! i\<rparr>
        else m' = m) [\<lparr>msg_type = ''note_on'', msg_time = 0, msg_note = 2, msg_velocity = 64\<rparr>] t')
   \<and> first_minimum (\<lambda>x. \<bar>x - 2\<bar>) [4, 0, 7 :: int] 0
   \<and> shift_nearest [\<lparr>msg_type = ''note_on'', msg_time = 0, msg_note = 2, msg_velocity = 64\<rparr>] [4, 0, 7]
     = (None, [\<lparr>msg_type = ''note_on'', msg_time = 0, msg_note = 4, msg_velocity = 64\<rparr>])"
proof -
  have ne: "[4, 0, 7] \<noteq> ([] :: int list)" by simp
  have fm: "first_minimum (\<lambda>x. \<bar>x - 2\<bar>) [4, 0, 7 :: int] 0"
    by (simp add: first_minimum_def less_Suc_eq nth_Cons')
  have ev: "shift_nearest [\<lparr>msg_type = ''note_on'', msg_time = 0, msg_note = 2, msg_velocity = 64\<rparr>] [4, 0, 7]
     = (None, [\<lparr>msg_type = ''note_on'', msg_time = 0, msg_note = 4, msg_velocity = 64\<rparr>])"
    by code_simp
  from shift_nearest_first_nearest [OF ne, of "[\<lparr>msg_type = ''note_on'', msg_time = 0, msg_note = 2, msg_velocity = 64\<rparr>]"] fm ev
  show ?thesis by blast
qed

section \<open>Claims about all transforms\<close>

text \<open>
  Claim C9. No transform adds, removes or reorders tracks or events: the tracks of the
  result correspond one to one, in order, to the tracks given, and so do their events,
  each keeping its type. \<open>normalize\<close> leaves the pitch and delta-time of every event
  unchanged; \<open>align\<close>, whether it returns or raises, leaves the pitch and velocity of every
  event and the delta-time of every event that is not a note-start or note-end unchanged,
  and such an event passes the carried shift on as it received it; \<open>correct_pitch\<close> with
  any of the three strategies leaves the velocity and delta-time of every event unchanged.
\<close>

theorem transforms_frame:
  "list_all2 (list_all2 keeps_pitch_time) (tracks s) (tracks (snd (normalize s v)))
   \<and> list_all2 (list_all2 keeps_all_but_note_time) (tracks s) (tracks (snd (align s p)))
   \<and> (\<not> is_note_message m \<longrightarrow> align_message tick shift m = Inr (shift, m))
   \<and> (strategy \<in> {shift_up, shift_down, shift_nearest} \<longrightarrow>
        list_all2 (list_all2 keeps_velocity_time) (tracks s)
          (tracks (snd (correct_pitch midi_notes s key strategy))))"
  using normalize_frame [of "tracks s" v] align_frame [of s p] correct_pitch_frame [of strategy s midi_notes key]
  by (simp add: normalize_def align_message_other)

theorem transforms_frame_witness:
  "list_all2 (list_all2 keeps_pitch_time) (tracks \<lparr>ticks_per_beat = 4, tracks =
       [[\<lparr>msg_type = ''note_on'', msg_time = 0, msg_note = 2, msg_velocity = 64\<rparr>,
         \<lparr>msg_type = ''control_change'', msg_time = 5, msg_note = 0, msg_velocity = 0\<rparr>,
         \<lparr>msg_type = ''note_off'', msg_time = 3, msg_note = 126, msg_velocity = 64\<rparr>]]\<rparr>)
     (tracks (snd (normalize \<lparr>ticks_per_beat = 4, tracks =
       [[\<lparr>msg_type = ''note_on'', msg_time = 0, msg_note = 2, msg_velocity = 64\<rparr>,
         \<lparr>msg_type = ''control_change'', msg_time = 5, msg_note = 0, msg_velocity = 0\<rparr>,
         \<lparr>msg_type = ''note_off'', msg_time = 3, msg_note = 126, msg_velocity = 64\<rparr>]]\<rparr> 100)))
   \<and> list_all2 (list_all2 keeps_all_but_note_time) (tracks \<lparr>ticks_per_beat = 4, tracks =
       [[\<lparr>msg_type = ''note_on'', msg_time = 0, msg_note = 2, msg_velocity = 64\<rparr>,
         \<lparr>msg_type = ''control_change'', msg_time = 5, msg_note = 0, msg_velocity = 0\<rparr>,
         \<lparr>msg_type = ''note_off'', msg_time = 3, msg_note = 126, msg_velocity = 64\<rparr>]]\<rparr>)
     (tracks (snd (align \<lparr>ticks_per_beat = 4, tracks =
       [[\<lparr>msg_type = ''note_on'', msg_time = 0, msg_note = 2, msg_velocity = 64\<rparr>,
         \<lparr>msg_type = ''control_change'', msg_time = 5, msg_note = 0, msg_velocity = 0\<rparr>,
         \<lparr>msg_type = ''note_off'', msg_time = 3, msg_note = 126, msg_velocity = 64\<rparr>]]\<rparr> 2)))
   \<and> align_message 2 1 \<lparr>msg_type = ''control_change'', msg_time = 5, msg_note = 0, msg_velocity = 0\<rparr>
     = Inr (1, \<lparr>msg_type = ''control_change'', msg_time = 5, msg_note = 0, msg_velocity = 0\<rparr>)
   \<and> list_all2 (list_all2 keeps_velocity_time) (tracks \<lparr>ticks_per_beat = 4, tracks =
       [[\<lparr>msg_type = ''note_on'', msg_time = 0, msg_note = 2, msg_velocity = 64\<rparr>,
         \<lparr>msg_type = ''control_change'', msg_time = 5, msg_note = 0, msg_velocity = 0\<rparr>,
         \<lparr>msg_type = ''note_off'', msg_time = 3, msg_note = 126, msg_velocity = 64\<rparr>]]\<rparr>)
     (tracks (snd (correct_pitch (\<lambda>n. if n = ''C'' then [0, 4] else [7]) \<lparr>ticks_per_beat = 4, tracks =
       [[\<lparr>msg_type = ''note_on'', msg_time = 0, msg_note = 2, msg_velocity = 64\<rparr>,
         \<lparr>msg_type = ''control_change'', msg_time = 5, msg_note = 0, msg_velocity = 0\<rparr>,
         \<lparr>msg_type = ''note_off'', msg_time = 3, msg_note = 126, msg_velocity = 64\<rparr>]]\<rparr> [''C'', ''G''] shift_nearest)))"
proof -
  have other: "\<not> is_note_message \<lparr>msg_type = ''control_change'', msg_time = 5, msg_note = 0, msg_velocity = 0\<rparr>"
    by (simp add: is_note_message_def)
  have st: "shift_nearest \<in> {shift_up, shift_down, shift_nearest}" by simp
  from transforms_frame [of "\<lparr>ticks_per_beat = 4, tracks =
       [[\<lparr>msg_type = ''note_on'', msg_time = 0, msg_note = 2, msg_velocity = 64\<rparr>,
         \<lparr>msg_type = ''control_change'', msg_time = 5, msg_note = 0, msg_velocity = 0\<rparr>,
         \<lparr>msg_type = ''note_off'', msg_time = 3, msg_note = 126, msg_velocity = 64\<rparr>]]\<rparr>" 100 2
      "\<lparr>msg_type = ''control_change'', msg_time = 5, msg_note = 0, msg_velocity = 0\<rparr>" 2 1 shift_nearest "(\<lambda>n. if n = ''C'' then [0, 4] else [7])" "[''C'', ''G'']"]
    other st
  show ?thesis by blast
qed

end
